theory Spec2Isabelle
  imports Complex_Main
begin

section \<open>JavaScript values used by the benchmark driver\<close>

text \<open>
  A JavaScript string is a sequence of UTF-16 code units; \<open>text.length\<close> and
  \<open>text.charCodeAt(i)\<close> count and read code units. Numbers that the program computes
  are array indices, offsets and counters: integers far below \<open>2^53\<close>, on which
  double arithmetic is exact, so they are modelled as \<open>int\<close>.
\<close>

type_synonym js_string = "nat list"

definition ascii :: "string \<Rightarrow> js_string" where
  "ascii s = map of_char s"

text \<open>Reading \<open>array[i]\<close>: \<open>None\<close> is JavaScript's \<open>undefined\<close> of an index out of range.\<close>

definition array_get :: "'a list \<Rightarrow> int \<Rightarrow> 'a option" where
  "array_get array i = (if 0 \<le> i \<and> i < int (length array) then Some (array ! nat i) else None)"

text \<open>
  \<open>value < array[i]\<close> and \<open>value >= array[i]\<close>, for numbers of any ordered type (the
  line table holds integers): a comparison with \<open>undefined\<close> (converted to NaN) is false.
\<close>

fun js_lt :: "'a::linorder \<Rightarrow> 'a option \<Rightarrow> bool" where
  "js_lt v None = False"
| "js_lt v (Some a) = (v < a)"

fun js_ge :: "'a::linorder \<Rightarrow> 'a option \<Rightarrow> bool" where
  "js_ge v None = False"
| "js_ge v (Some a) = (v \<ge> a)"

text \<open>
  \<open>x >> 1\<close>: the operand is converted to a signed 32-bit integer (ToInt32), then
  shifted arithmetically.
\<close>

definition toInt32 :: "int \<Rightarrow> int" where
  "toInt32 x = (x + 2 ^ 31) mod 2 ^ 32 - 2 ^ 31"

definition shiftRight1 :: "int \<Rightarrow> int" where
  "shiftRight1 x = toInt32 x div 2"

section \<open>line\_table.ts\<close>

definition lineFeed :: nat where "lineFeed = 10"
definition carriageReturn :: nat where "carriageReturn = 13"

record LineTable =
  lineStarts :: "int list"

text \<open>The \<open>for\<close> loop of the constructor, from index \<open>i\<close> with the starts pushed so far.\<close>

function constructor_loop :: "js_string \<Rightarrow> nat \<Rightarrow> int list \<Rightarrow> int list" where
  "constructor_loop text i starts =
     (if i < length text then
        (let ch = text ! i in
         if ch = lineFeed then constructor_loop text (i + 1) (starts @ [int (i + 1)])
         else if ch = carriageReturn then
           (let i' = (if i + 1 < length text \<and> text ! (i + 1) = lineFeed then i + 1 else i)
            in constructor_loop text (i' + 1) (starts @ [int (i' + 1)]))
         else constructor_loop text (i + 1) starts)
      else starts)"
  by pat_completeness auto
termination
  by (relation "measure (\<lambda>(text, i, starts). length text - i)") auto

declare constructor_loop.simps [simp del]

definition new_LineTable :: "js_string \<Rightarrow> LineTable" where
  "new_LineTable text =
     (let starts = constructor_loop text 0 [0] in
      \<lparr> lineStarts =
          (if array_get starts (int (length starts) - 1) \<noteq> Some (int (length text))
           then starts @ [int (length text)] else starts) \<rparr>)"

text \<open>
  The \<open>while\<close> loop of \<open>getLowerBound\<close>. \<open>None\<close> stands for a loop that never
  returns.
\<close>

partial_function (option) getLowerBound_loop ::
  "'a::linorder list \<Rightarrow> 'a \<Rightarrow> int \<Rightarrow> int \<Rightarrow> int option" where
  "getLowerBound_loop array v low high =
     (if low < high then
        (let mid = high - shiftRight1 (high - low) in
         if js_lt v (array_get array mid)
         then getLowerBound_loop array v low (mid - 1)
         else getLowerBound_loop array v mid high)
      else Some low)"

declare getLowerBound_loop.simps [code]

definition getLowerBound :: "'a::linorder list \<Rightarrow> 'a \<Rightarrow> int option" where
  "getLowerBound array v =
     (let low = 0; high = int (length array) - 1 in
      if js_lt v (array_get array 0) then Some 0
      else if js_ge v (array_get array high) then Some high
      else getLowerBound_loop array v low high)"

definition getStartOfLine :: "LineTable \<Rightarrow> int \<Rightarrow> int option" where
  "getStartOfLine t lnum = array_get (lineStarts t) lnum"

definition getLineFromOffset :: "LineTable \<Rightarrow> int \<Rightarrow> int option" where
  "getLineFromOffset t offset = getLowerBound (lineStarts t) offset"

text \<open>\<open>offset - start\<close>: \<open>None\<close> is the NaN of subtracting \<open>undefined\<close>.\<close>

definition getColumnFromLineAndOffset :: "LineTable \<Rightarrow> int \<Rightarrow> int \<Rightarrow> int option" where
  "getColumnFromLineAndOffset t lnum offset =
     (case array_get (lineStarts t) lnum of None \<Rightarrow> None | Some start \<Rightarrow> Some (offset - start))"

record LineAndColumn1 =
  line :: int
  column :: "int option"

definition get1BasedLineAndColumn :: "LineTable \<Rightarrow> int \<Rightarrow> LineAndColumn1 option" where
  "get1BasedLineAndColumn t offset =
     (case getLineFromOffset t offset of
        None \<Rightarrow> None
      | Some lnum \<Rightarrow>
          (let col = getColumnFromLineAndOffset t lnum offset
           in Some \<lparr> line = lnum + 1, column = map_option (\<lambda>c. c + 1) col \<rparr>))"

section \<open>index.ts\<close>

subsection \<open>Values exchanged with the language server\<close>

text \<open>
  A value decoded from a JSON-RPC response. \<open>Undefined\<close> is a missing \<open>result\<close>
  field; an \<open>Object\<close> lists its own properties, one entry per key. Fractional numbers
  behave here as any other non-zero number and are left out.
\<close>

datatype js_value =
    Undefined
  | Null
  | Boolean bool
  | Number int
  | String js_string
  | Array "js_value list"
  | Object "(js_string \<times> js_value) list"

datatype Position = Position int "int option"
  \<comment> \<open>\<open>{line, character}\<close>; \<open>None\<close> is NaN\<close>

datatype TextDocumentItem = TextDocumentItem js_string js_string int js_string
  \<comment> \<open>\<open>{uri, languageId, version, text}\<close>\<close>

datatype VersionedTextDocumentIdentifier = VersionedTextDocumentIdentifier js_string int
  \<comment> \<open>\<open>{uri, version}\<close>\<close>

datatype WorkspaceFolder = WorkspaceFolder js_string js_string
  \<comment> \<open>\<open>{uri, name}\<close>\<close>

text \<open>
  The messages \<open>main\<close> writes to the connection. A \<open>didChange\<close> notification carries
  one content change, without a range: the full new text of the document.
\<close>

datatype message =
    InitializeRequest "WorkspaceFolder list"
  | InitializedNotification
  | DidOpenTextDocumentNotification TextDocumentItem
  | DidChangeTextDocumentNotification VersionedTextDocumentIdentifier js_string
  | DefinitionRequest Position VersionedTextDocumentIdentifier
  | CompletionRequest Position VersionedTextDocumentIdentifier
  | ExitNotification

text \<open>What comes back for a request: a result, an error response, or nothing at all.\<close>

datatype reply = Result js_value | ResponseError | NoReply

text \<open>Why \<open>main\<close> stops early: a rejected request, a thrown TypeError, or waiting forever.\<close>

datatype failure = RequestRejected | TypeError | NeverReturns

text \<open>
  Everything outside the program: the file system, the clock, and the server, whose reply
  to a request may depend on all that was sent to it up to and including that request.
\<close>

record environment =
  pathToFileURL :: "js_string \<Rightarrow> js_string"
  realpathSync :: "js_string \<Rightarrow> js_string"
  basename :: "js_string \<Rightarrow> js_string"
  readFileSync :: "js_string \<Rightarrow> js_string"
  performance_now :: "message list \<Rightarrow> real"
  server :: "message list \<Rightarrow> reply"

record Options =
  jumpToDef :: bool
  language :: js_string
  workspaceFolders :: "js_string list"

record Config =
  files :: "js_string list"
  command :: "js_string list"
  options :: Options

text \<open>
  \<open>interface Measurement\<close>: the fields \<open>line\<close> and \<open>column\<close> of \<open>LineAndColumn1\<close>,
  and \<open>file\<close>, \<open>time\<close>, \<open>numberOfResults\<close>. The last one holds whatever the
  classification of the result computed.
\<close>

record Measurement = LineAndColumn1 +
  "file" :: js_string
  time :: int
  numberOfResults :: js_value

text \<open>
  The state \<open>main\<close> changes: the local \<open>versionNumber\<close> of the file being processed,
  the messages written to the connection, and the measurements handed to the reporter.
\<close>

record state =
  versionNumber :: int
  sent :: "message list"
  reported :: "Measurement list"

definition send :: "message \<Rightarrow> state \<Rightarrow> state" where
  "send m st = st\<lparr> sent := sent st @ [m] \<rparr>"

definition reporter :: "Measurement \<Rightarrow> state \<Rightarrow> state" where
  "reporter m st = st\<lparr> reported := reported st @ [m] \<rparr>"

subsection \<open>Strings and regular expressions\<close>

text \<open>\<open>text.substring(start, end)\<close> and \<open>text.substring(start)\<close>.\<close>

definition substring :: "js_string \<Rightarrow> nat \<Rightarrow> nat \<Rightarrow> js_string" where
  "substring s start end =
     (let finalStart = min start (length s); finalEnd = min end (length s);
          from = min finalStart finalEnd; to = max finalStart finalEnd
      in take (to - from) (drop from s))"

definition substring_from :: "js_string \<Rightarrow> nat \<Rightarrow> js_string" where
  "substring_from s start = substring s start (length s)"

text \<open>
  \<open>text.split(/\r\n?|\n/)\<close>: the pieces between the separators, a carriage return with
  the line feed after it being one separator.
\<close>

fun split_lines :: "js_string \<Rightarrow> js_string list" where
  "split_lines [] = [[]]"
| "split_lines (c # cs) =
     (if c = carriageReturn then
        (case cs of
           [] \<Rightarrow> [] # split_lines cs
         | d # ds \<Rightarrow> if d = lineFeed then [] # split_lines ds else [] # split_lines cs)
      else if c = lineFeed then [] # split_lines cs
      else (case split_lines cs of [] \<Rightarrow> [[c]] | l # ls \<Rightarrow> (c # l) # ls))"

text \<open>The class \<open>\s\<close>: white space and line terminators.\<close>

definition isWhiteSpace :: "nat \<Rightarrow> bool" where
  "isWhiteSpace c \<longleftrightarrow>
     c \<in> {9, 10, 11, 12, 13, 32, 160, 5760, 8232, 8233, 8239, 8287, 12288, 65279}
     \<or> (8192 \<le> c \<and> c \<le> 8202)"

text \<open>
  \<open>/^\s*(\*|\/\*|\/\/)/.test(s)\<close>. No white space character is \<open>*\<close> or \<open>/\<close>, so
  the pattern matches exactly when what follows the leading white space starts with
  one of the three alternatives.
\<close>

definition commentRegex_test :: "js_string \<Rightarrow> bool" where
  "commentRegex_test s =
     (let rest = dropWhile isWhiteSpace s
      in take 1 rest = ascii ''*'' \<or> take 2 rest = ascii ''/*'' \<or> take 2 rest = ascii ''//'')"

text \<open>
  \<open>/[a-z_][a-z_0-9]*/ig\<close>: with the flag \<open>i\<close> and without \<open>u\<close>, the classes match
  the ASCII letters of both cases, the underscore and (the second one) the digits.
\<close>

definition isWordStart :: "nat \<Rightarrow> bool" where
  "isWordStart c \<longleftrightarrow> (65 \<le> c \<and> c \<le> 90) \<or> (97 \<le> c \<and> c \<le> 122) \<or> c = 95"

definition isWordPart :: "nat \<Rightarrow> bool" where
  "isWordPart c \<longleftrightarrow> isWordStart c \<or> (48 \<le> c \<and> c \<le> 57)"

text \<open>
  \<open>wordRegex.exec(text)\<close> with \<open>wordRegex.lastIndex = lastIndex\<close>: the leftmost match
  starting at or after \<open>lastIndex\<close>, as \<open>(match.index, match[0])\<close>, or \<open>None\<close> for
  \<open>null\<close>. On a match the expression's \<open>lastIndex\<close> becomes the end of the match.
\<close>

definition wordRegex_exec :: "js_string \<Rightarrow> nat \<Rightarrow> (nat \<times> js_string) option" where
  "wordRegex_exec s lastIndex =
     (let index = lastIndex + length (takeWhile (\<lambda>c. \<not> isWordStart c) (drop lastIndex s))
      in if index < length s
         then Some (index, s ! index # takeWhile isWordPart (drop (index + 1) s))
         else None)"

text \<open>\<open>Math.round\<close> of a finite number.\<close>

definition Math_round :: "real \<Rightarrow> int" where
  "Math_round x = \<lfloor>x + 1 / 2\<rfloor>"

subsection \<open>The measurement loop\<close>

text \<open>The classification of \<open>result\<close> at the end of the loop body.\<close>

fun falsy :: "js_value \<Rightarrow> bool" where
  "falsy Undefined = True"
| "falsy Null = True"
| "falsy (Boolean b) = (\<not> b)"
| "falsy (Number n) = (n = 0)"
| "falsy (String s) = (s = [])"
| "falsy (Array xs) = False"
| "falsy (Object ps) = False"

text \<open>\<open>v.length\<close>: reading a property of \<open>null\<close> or \<open>undefined\<close> throws.\<close>

fun get_length :: "js_value \<Rightarrow> failure + js_value" where
  "get_length Undefined = Inl TypeError"
| "get_length Null = Inl TypeError"
| "get_length (Boolean b) = Inr Undefined"
| "get_length (Number n) = Inr Undefined"
| "get_length (String s) = Inr (Number (int (length s)))"
| "get_length (Array xs) = Inr (Number (int (length xs)))"
| "get_length (Object ps) =
     Inr (case map_of ps (ascii ''length'') of None \<Rightarrow> Undefined | Some v \<Rightarrow> v)"

text \<open>
  \<open>if (!result) ... else if (Array.isArray(result)) ... else if ('items' in result) ...
  else ...\<close>; the operator \<open>in\<close> throws on a primitive value.
\<close>

definition numberOfResults_of :: "js_value \<Rightarrow> failure + js_value" where
  "numberOfResults_of result =
     (if falsy result then Inr (Number 0)
      else case result of
          Array xs \<Rightarrow> Inr (Number (int (length xs)))
        | Object ps \<Rightarrow>
            (case map_of ps (ascii ''items'') of
               Some items \<Rightarrow> get_length items
             | None \<Rightarrow> Inr (Number 1))
        | _ \<Rightarrow> Inl TypeError)"

text \<open>
  \<open>lines[line - 1]\<close> as \<open>commentRegex.test\<close> reads it: out of range it is
  \<open>undefined\<close>, which \<open>test\<close> converts to the string \<open>undefined\<close>.
\<close>

definition tested_line :: "js_string list \<Rightarrow> LineAndColumn1 \<Rightarrow> js_string" where
  "tested_line lines lc =
     (case array_get lines (line lc - 1) of None \<Rightarrow> ascii ''undefined'' | Some l \<Rightarrow> l)"

text \<open>The local \<open>replacedText\<close>: the full text of the probe edit.\<close>

definition replacedText :: "bool \<Rightarrow> js_string \<Rightarrow> nat \<Rightarrow> nat \<Rightarrow> js_string" where
  "replacedText jump text matchIndex matchEndIndex =
     (if jump
      then substring text 0 matchEndIndex @ ascii '' '' @ substring_from text matchEndIndex
      else substring text 0 matchIndex @ substring_from text matchEndIndex)"

text \<open>The measured request, at \<open>startPos\<close> on \<open>modifiedVersion\<close>.\<close>

definition measured_request :: "bool \<Rightarrow> Position \<Rightarrow> VersionedTextDocumentIdentifier \<Rightarrow> message" where
  "measured_request jump startPos modifiedVersion =
     (if jump then DefinitionRequest startPos modifiedVersion
      else CompletionRequest startPos modifiedVersion)"

text \<open>
  One pass through the body of the \<open>while\<close> loop, for the match \<open>(matchIndex,
  replacedWord)\<close>. A pass ends by \<open>continue\<close> or at its end (\<open>None\<close>), or stops
  \<open>main\<close>.
\<close>

definition loop_body ::
  "environment \<Rightarrow> Options \<Rightarrow> js_string \<Rightarrow> js_string \<Rightarrow> js_string \<Rightarrow> js_string list \<Rightarrow> LineTable
     \<Rightarrow> nat \<Rightarrow> js_string \<Rightarrow> state \<Rightarrow> failure option \<times> state" where
  "loop_body env opts path uri text lines lineTable matchIndex replacedWord st =
     (let matchEndIndex = matchIndex + length replacedWord in
      case get1BasedLineAndColumn lineTable (int matchIndex) of
        None \<Rightarrow> (Some NeverReturns, st)
      | Some lc \<Rightarrow>
          if commentRegex_test (tested_line lines lc) then (None, st)
          else
            (let startPos = Position (line lc) (column lc);
                 startTime = performance_now env (sent st);
                 st1 = st\<lparr> versionNumber := versionNumber st + 1 \<rparr>;
                 modifiedVersion = VersionedTextDocumentIdentifier uri (versionNumber st1);
                 st2 = send (DidChangeTextDocumentNotification modifiedVersion
                               (replacedText (jumpToDef opts) text matchIndex matchEndIndex)) st1;
                 st3 = send (measured_request (jumpToDef opts) startPos modifiedVersion) st2
             in case server env (sent st3) of
                  ResponseError \<Rightarrow> (Some RequestRejected, st3)
                | NoReply \<Rightarrow> (Some NeverReturns, st3)
                | Result result \<Rightarrow>
                    (let st4 = st3\<lparr> versionNumber := versionNumber st3 + 1 \<rparr>;
                         st5 = send (DidChangeTextDocumentNotification
                                       (VersionedTextDocumentIdentifier uri (versionNumber st4)) text) st4;
                         endTime = performance_now env (sent st5)
                     in case numberOfResults_of result of
                          Inl e \<Rightarrow> (Some e, st5)
                        | Inr n \<Rightarrow>
                            (None, reporter \<lparr> line = line lc, column = column lc, file = path,
                                              time = Math_round (endTime - startTime),
                                              numberOfResults = n \<rparr> st5))))"

text \<open>
  \<open>while ((match = wordRegex.exec(text)) != null) { ... }\<close>, from the regular
  expression's current \<open>lastIndex\<close>.
\<close>

function token_loop ::
  "environment \<Rightarrow> Options \<Rightarrow> js_string \<Rightarrow> js_string \<Rightarrow> js_string \<Rightarrow> js_string list \<Rightarrow> LineTable
     \<Rightarrow> nat \<Rightarrow> state \<Rightarrow> failure option \<times> state" where
  "token_loop env opts path uri text lines lineTable lastIndex st =
     (case wordRegex_exec text lastIndex of
        None \<Rightarrow> (None, st)
      | Some (matchIndex, replacedWord) \<Rightarrow>
          (case loop_body env opts path uri text lines lineTable matchIndex replacedWord st of
             (Some e, st') \<Rightarrow> (Some e, st')
           | (None, st') \<Rightarrow>
               token_loop env opts path uri text lines lineTable
                 (matchIndex + length replacedWord) st'))"
  by pat_completeness auto
termination
proof (relation "measure (\<lambda>(env, opts, path, uri, text, lines, lineTable, lastIndex, st).
                    Suc (length text) - lastIndex)", goal_cases)
  case 1
  show ?case by simp
next
  case (2 env opts path uri "text" lines lineTable lastIndex st x2 matchIndex replacedWord x2a st')
  then have "lastIndex \<le> matchIndex" "matchIndex < length text" "replacedWord \<noteq> []"
    by (auto simp: wordRegex_exec_def Let_def split: if_splits)
  then show ?case by (cases replacedWord) auto
qed

declare token_loop.simps [simp del]

text \<open>The body of \<open>for (let file of config.files)\<close> for one file.\<close>

definition process_file :: "environment \<Rightarrow> Options \<Rightarrow> js_string \<Rightarrow> state \<Rightarrow> failure option \<times> state" where
  "process_file env opts path st =
     (let uri = pathToFileURL env (realpathSync env path);
          text = readFileSync env path;
          lines = split_lines text;
          lineTable = new_LineTable text;
          st1 = st\<lparr> versionNumber := 1 \<rparr>;
          textDocumentItem = TextDocumentItem uri (ascii ''codeql'') (versionNumber st1) text;
          st2 = send (DidOpenTextDocumentNotification textDocumentItem) st1
      in token_loop env opts path uri text lines lineTable 0 st2)"

fun for_files :: "environment \<Rightarrow> Options \<Rightarrow> js_string list \<Rightarrow> state \<Rightarrow> failure option \<times> state" where
  "for_files env opts [] st = (None, st)"
| "for_files env opts (path # rest) st =
     (case process_file env opts path st of
        (Some e, st') \<Rightarrow> (Some e, st')
      | (None, st') \<Rightarrow> for_files env opts rest st')"

text \<open>
  \<open>main\<close>, from a fresh connection: the handshake, the files, the exit notification.
  Spawning the server and the lines written to the console other than by the reporter
  are not part of the state.
\<close>

definition main :: "environment \<Rightarrow> Config \<Rightarrow> failure option \<times> state" where
  "main env config =
     (let st0 = \<lparr> versionNumber = 0, sent = [], reported = [] \<rparr>;
          params = map (\<lambda>folder. WorkspaceFolder (pathToFileURL env folder) (basename env folder))
                     (workspaceFolders (options config));
          st1 = send (InitializeRequest params) st0
      in case server env (sent st1) of
           ResponseError \<Rightarrow> (Some RequestRejected, st1)
         | NoReply \<Rightarrow> (Some NeverReturns, st1)
         | Result result \<Rightarrow>
             (let st2 = send InitializedNotification st1
              in case for_files env (options config) (files config) st2 of
                   (Some e, st') \<Rightarrow> (Some e, st')
                 | (None, st') \<Rightarrow> (None, send ExitNotification st')))"

section \<open>The tokens of a text and the messages of a run\<close>

text \<open>The matches that the \<open>while\<close> loop visits from \<open>lastIndex\<close> on, in order.\<close>

function matches_from :: "js_string \<Rightarrow> nat \<Rightarrow> (nat \<times> js_string) list" where
  "matches_from s lastIndex =
     (case wordRegex_exec s lastIndex of
        None \<Rightarrow> []
      | Some (matchIndex, replacedWord) \<Rightarrow>
          (matchIndex, replacedWord) # matches_from s (matchIndex + length replacedWord))"
  by pat_completeness auto
termination
proof (relation "measure (\<lambda>(s, lastIndex). Suc (length s) - lastIndex)", goal_cases)
  case 1
  show ?case by simp
next
  case (2 s lastIndex x2 matchIndex replacedWord)
  then have "lastIndex \<le> matchIndex" "matchIndex < length s" "replacedWord \<noteq> []"
    by (auto simp: wordRegex_exec_def Let_def split: if_splits)
  then show ?case by (cases replacedWord) auto
qed

declare matches_from.simps [simp del]

text \<open>
  Of these matches, the ones that pass the comment test, each with the line and column
  computed for it: the measured tokens. The list ends where the computation of a
  position would not return.
\<close>

fun measured ::
  "js_string list \<Rightarrow> LineTable \<Rightarrow> (nat \<times> js_string) list \<Rightarrow> (nat \<times> js_string \<times> LineAndColumn1) list" where
  "measured lines lineTable [] = []"
| "measured lines lineTable ((matchIndex, replacedWord) # rest) =
     (case get1BasedLineAndColumn lineTable (int matchIndex) of
        None \<Rightarrow> []
      | Some lc \<Rightarrow>
          if commentRegex_test (tested_line lines lc) then measured lines lineTable rest
          else (matchIndex, replacedWord, lc) # measured lines lineTable rest)"

definition measured_tokens :: "js_string \<Rightarrow> (nat \<times> js_string \<times> LineAndColumn1) list" where
  "measured_tokens text = measured (split_lines text) (new_LineTable text) (matches_from text 0)"

text \<open>
  The three messages of one measured token when the counter is \<open>v\<close> before it: the probe
  edit, the request, the revert.
\<close>

definition cycle ::
  "bool \<Rightarrow> js_string \<Rightarrow> js_string \<Rightarrow> int \<Rightarrow> nat \<times> js_string \<times> LineAndColumn1 \<Rightarrow> message list" where
  "cycle jump uri text v tok =
     (case tok of (matchIndex, replacedWord, lc) \<Rightarrow>
        [DidChangeTextDocumentNotification (VersionedTextDocumentIdentifier uri (v + 1))
           (replacedText jump text matchIndex (matchIndex + length replacedWord)),
         measured_request jump (Position (line lc) (column lc))
           (VersionedTextDocumentIdentifier uri (v + 1)),
         DidChangeTextDocumentNotification (VersionedTextDocumentIdentifier uri (v + 2)) text])"

fun cycles ::
  "bool \<Rightarrow> js_string \<Rightarrow> js_string \<Rightarrow> int \<Rightarrow> (nat \<times> js_string \<times> LineAndColumn1) list \<Rightarrow> message list" where
  "cycles jump uri text v [] = []"
| "cycles jump uri text v (tok # toks) = cycle jump uri text v tok @ cycles jump uri text (v + 2) toks"

text \<open>The document versions announced by the notifications among some messages, in order.\<close>

fun versions :: "message list \<Rightarrow> int list" where
  "versions [] = []"
| "versions (DidOpenTextDocumentNotification (TextDocumentItem u l v t) # ms) = v # versions ms"
| "versions (DidChangeTextDocumentNotification (VersionedTextDocumentIdentifier u v) t # ms) =
     v # versions ms"
| "versions (m # ms) = versions ms"

fun is_request :: "message \<Rightarrow> bool" where
  "is_request (DefinitionRequest p d) = True"
| "is_request (CompletionRequest p d) = True"
| "is_request m = False"

section \<open>The lines of a text\<close>

text \<open>
  A line terminator (a line feed, a carriage return with the line feed after it, or a
  carriage return not followed by a line feed) ends just before offset \<open>p\<close>.
\<close>

definition terminator_ends_at :: "js_string \<Rightarrow> nat \<Rightarrow> bool" where
  "terminator_ends_at text p \<longleftrightarrow>
     0 < p \<and> p \<le> length text
     \<and> (text ! (p - 1) = lineFeed
        \<or> (text ! (p - 1) = carriageReturn \<and> \<not> (p < length text \<and> text ! p = lineFeed)))"

text \<open>The offsets just after each line terminator of a text, in order.\<close>

fun terminator_ends :: "js_string \<Rightarrow> nat list" where
  "terminator_ends [] = []"
| "terminator_ends (c # cs) =
     (if c = carriageReturn then
        (case cs of
           [] \<Rightarrow> [1]
         | d # ds \<Rightarrow>
             if d = lineFeed then 2 # map (\<lambda>p. p + 2) (terminator_ends ds)
             else 1 # map Suc (terminator_ends cs))
      else if c = lineFeed then 1 # map Suc (terminator_ends cs)
      else map Suc (terminator_ends cs))"

text \<open>
  The line around an offset: the characters before it and from it on, as far as they are
  neither line feeds nor carriage returns.
\<close>

definition in_line :: "nat \<Rightarrow> bool" where
  "in_line c \<longleftrightarrow> c \<noteq> lineFeed \<and> c \<noteq> carriageReturn"

definition line_at :: "js_string \<Rightarrow> nat \<Rightarrow> js_string" where
  "line_at text offset =
     rev (takeWhile in_line (rev (take offset text))) @ takeWhile in_line (drop offset text)"

text \<open>What was sent and reported between a state and a later one.\<close>

definition new_messages :: "state \<Rightarrow> state \<Rightarrow> message list" where
  "new_messages st st' = drop (length (sent st)) (sent st')"

definition new_measurements :: "state \<Rightarrow> state \<Rightarrow> Measurement list" where
  "new_measurements st st' = drop (length (reported st)) (reported st')"

text \<open>
  How a run of the loop from state \<open>st\<close> over the measured tokens \<open>M\<close> can end in
  \<open>st'\<close>: after \<open>j\<close> whole cycles, or inside cycle \<open>j\<close> after its request, with one
  measurement reported per completed token.
\<close>

definition run_result ::
  "bool \<Rightarrow> js_string \<Rightarrow> js_string \<Rightarrow> js_string \<Rightarrow> (nat \<times> js_string \<times> LineAndColumn1) list
     \<Rightarrow> state \<Rightarrow> failure option \<Rightarrow> state \<Rightarrow> bool" where
  "run_result jump uri text path M st out st' \<longleftrightarrow>
     (\<exists>j ms. reported st' = reported st @ ms
        \<and> list_all2 (\<lambda>m tok. line m = line (snd (snd tok)) \<and> column m = column (snd (snd tok))
                              \<and> file m = path) ms (take (length ms) M)
        \<and> j \<le> length M
        \<and> ((sent st' = sent st @ take (3 * j) (cycles jump uri text (versionNumber st) M)
              \<and> versionNumber st' = versionNumber st + 2 * int j
              \<and> (length ms = j \<or> (Suc (length ms) = j \<and> out \<noteq> None))
              \<and> (out = None \<longrightarrow> j = length M))
           \<or> (sent st' = sent st @ take (3 * j + 2) (cycles jump uri text (versionNumber st) M)
              \<and> versionNumber st' = versionNumber st + 2 * int j + 1
              \<and> length ms = j \<and> j < length M \<and> out \<noteq> None)))"

section \<open>Example inputs\<close>

text \<open>
  An environment with one text in every file, a server that gives the same reply to every
  request, and a clock that stands still; the options of the two modes; the state of a
  fresh connection.
\<close>

definition example_env :: "js_string \<Rightarrow> reply \<Rightarrow> environment" where
  "example_env text r =
     \<lparr> pathToFileURL = (\<lambda>p. ascii ''file://'' @ p), realpathSync = (\<lambda>p. p),
       basename = (\<lambda>p. p), readFileSync = (\<lambda>p. text), performance_now = (\<lambda>ms. 0),
       server = (\<lambda>ms. r) \<rparr>"

definition completion_options :: Options where
  "completion_options = \<lparr> jumpToDef = False, language = ascii ''codeql'', workspaceFolders = [] \<rparr>"

definition jump_options :: Options where
  "jump_options = \<lparr> jumpToDef = True, language = ascii ''codeql'', workspaceFolders = [] \<rparr>"

definition fresh :: state where
  "fresh = \<lparr> versionNumber = 0, sent = [], reported = [] \<rparr>"

text \<open>The file \<open>a.ql\<close> with the text \<open>foo bar\<close>, in completion mode, on a fresh connection.\<close>

definition foo_bar_run :: "failure option \<times> state" where
  "foo_bar_run =
     process_file (example_env (ascii ''foo bar'') (Result Null)) completion_options (ascii ''a.ql'') fresh"

section \<open>Properties of line\_table.ts\<close>

subsection \<open>The shift and the binary search terminate\<close>

lemma toInt32_id: "- (2 ^ 31) \<le> x \<Longrightarrow> x < 2 ^ 31 \<Longrightarrow> toInt32 x = x"
  by (simp add: toInt32_def)

lemma shiftRight1_small: "0 \<le> x \<Longrightarrow> x < 2 ^ 31 \<Longrightarrow> shiftRight1 x = x div 2"
  by (simp add: shiftRight1_def toInt32_id)

lemma shiftRight1_wrapped: "2 ^ 31 \<le> x \<Longrightarrow> x < 2 ^ 32 \<Longrightarrow> shiftRight1 x < 0"
proof -
  assume a: "2 ^ 31 \<le> x" "x < 2 ^ 32"
  have "(x + 2 ^ 31) mod 2 ^ 32 = x + 2 ^ 31 - 2 ^ 32"
    using a by (simp add: mod_pos_geq)
  then have "toInt32 x = x - 2 ^ 32" by (simp add: toInt32_def)
  then show ?thesis using a by (simp add: shiftRight1_def)
qed

lemma mid_in_range:
  assumes "low < high" "high - low < 2 ^ 31"
  shows "low < high - shiftRight1 (high - low)" "high - shiftRight1 (high - low) \<le> high"
  using assms by (simp_all add: shiftRight1_small)

lemma getLowerBound_loop_returns:
  "high - low < 2 ^ 31 \<Longrightarrow> \<exists>r. getLowerBound_loop array v low high = Some r"
proof (induction "nat (high - low)" arbitrary: low high rule: less_induct)
  case less
  show ?case
  proof (cases "low < high")
    case False
    then show ?thesis by (simp add: getLowerBound_loop.simps)
  next
    case True
    define mid where "mid = high - shiftRight1 (high - low)"
    have m: "low < mid" "mid \<le> high"
      using mid_in_range[OF True less.prems] by (simp_all add: mid_def)
    have 1: "\<exists>r. getLowerBound_loop array v low (mid - 1) = Some r"
      using less.hyps[of "mid - 1" low] m less.prems True by simp
    have 2: "\<exists>r. getLowerBound_loop array v mid high = Some r"
      using less.hyps[of high mid] m less.prems True by simp
    show ?thesis
      using 1 2 True
      by (subst getLowerBound_loop.simps) (simp add: Let_def mid_def)
  qed
qed

lemma getLowerBound_returns:
  assumes "length array < 2 ^ 32"
  shows "\<exists>r. getLowerBound array v = Some r"
proof (cases "int (length array) - 1 < 2 ^ 31")
  case True
  then have "\<exists>r. getLowerBound_loop array v 0 (int (length array) - 1) = Some r"
    by (intro getLowerBound_loop_returns) simp
  then show ?thesis by (auto simp: getLowerBound_def Let_def)
next
  case False
  define high where "high = int (length array) - 1"
  have h: "2 ^ 31 \<le> high" "high < 2 ^ 32" using False assms by (simp_all add: high_def)
  have neg: "shiftRight1 (high - 0) < 0" using shiftRight1_wrapped[OF h] by simp
  define mid where "mid = high - shiftRight1 (high - 0)"
  have mid: "high < mid" using neg by (simp add: mid_def)
  have out: "array_get array mid = None" using mid by (simp add: array_get_def high_def)
  have "getLowerBound_loop array v mid high = Some mid"
    using mid by (subst getLowerBound_loop.simps) simp
  then have "getLowerBound_loop array v 0 high = Some mid"
    using h out by (subst getLowerBound_loop.simps) (simp add: Let_def mid_def)
  then show ?thesis by (auto simp: getLowerBound_def Let_def high_def)
qed

subsection \<open>The binary search on a sorted array\<close>

lemma getLowerBound_loop_correct:
  assumes "sorted array" "0 \<le> low" "low \<le> high" "high < int (length array)"
    "length array \<le> 2 ^ 31"
    "array ! nat low \<le> v"
    "high + 1 < int (length array) \<longrightarrow> v < array ! nat (high + 1)"
  shows "\<exists>k. getLowerBound_loop array v low high = Some k \<and> low \<le> k \<and> k \<le> high
           \<and> array ! nat k \<le> v \<and> (k + 1 < int (length array) \<longrightarrow> v < array ! nat (k + 1))"
  using assms
proof (induction "nat (high - low)" arbitrary: low high rule: less_induct)
  case less
  show ?case
  proof (cases "low < high")
    case False
    then have "low = high" using less.prems by simp
    then show ?thesis using less.prems by (simp add: getLowerBound_loop.simps)
  next
    case True
    define mid where "mid = high - shiftRight1 (high - low)"
    have d: "high - low < 2 ^ 31" using less.prems by simp
    have m: "low < mid" "mid \<le> high"
      using mid_in_range[OF True d] by (simp_all add: mid_def)
    have g: "array_get array mid = Some (array ! nat mid)"
      using m less.prems by (simp add: array_get_def)
    show ?thesis
    proof (cases "v < array ! nat mid")
      case lt: True
      have "\<exists>k. getLowerBound_loop array v low (mid - 1) = Some k \<and> low \<le> k \<and> k \<le> mid - 1
           \<and> array ! nat k \<le> v \<and> (k + 1 < int (length array) \<longrightarrow> v < array ! nat (k + 1))"
        using less.hyps[of "mid - 1" low] m less.prems lt by simp
      moreover have "getLowerBound_loop array v low high = getLowerBound_loop array v low (mid - 1)"
        using True g lt by (subst getLowerBound_loop.simps) (simp add: Let_def mid_def)
      ultimately show ?thesis using m by auto
    next
      case ge: False
      have "\<exists>k. getLowerBound_loop array v mid high = Some k \<and> mid \<le> k \<and> k \<le> high
           \<and> array ! nat k \<le> v \<and> (k + 1 < int (length array) \<longrightarrow> v < array ! nat (k + 1))"
        using less.hyps[of high mid] m less.prems ge by simp
      moreover have "getLowerBound_loop array v low high = getLowerBound_loop array v mid high"
        using True g ge by (subst getLowerBound_loop.simps) (simp add: Let_def mid_def)
      ultimately show ?thesis using m by auto
    qed
  qed
qed

text \<open>What the search returns on a sorted, non-empty array.\<close>

lemma getLowerBound_sorted:
  assumes "sorted array" "array \<noteq> []" "length array \<le> 2 ^ 31"
  shows "\<exists>k. getLowerBound array v = Some k \<and> 0 \<le> k \<and> k < int (length array)
           \<and> (v < array ! 0 \<longrightarrow> k = 0)
           \<and> (array ! 0 \<le> v \<longrightarrow> array ! nat k \<le> v
                 \<and> (\<forall>j < length array. array ! j \<le> v \<longrightarrow> int j \<le> k))
           \<and> (array ! 0 \<le> v \<longrightarrow> k + 1 < int (length array) \<longrightarrow> v < array ! nat (k + 1))
           \<and> (last array \<le> v \<longrightarrow> k = int (length array) - 1)"
proof -
  define high where "high = int (length array) - 1"
  have h0: "0 \<le> high" "high < int (length array)" "nat high = length array - 1"
    using assms(2) by (simp_all add: high_def Suc_leI)
  have g0: "array_get array 0 = Some (array ! 0)" using assms(2) by (simp add: array_get_def)
  have gh: "array_get array high = Some (last array)"
    using assms(2) h0 by (simp add: array_get_def last_conv_nth)
  have first_le_last: "array ! 0 \<le> last array"
    using assms(1,2) by (metis h0(3) last_conv_nth  sorted_nth_mono le0 diff_less length_greater_0_conv zero_less_one)
  consider (below) "v < array ! 0" | (above) "array ! 0 \<le> v" "last array \<le> v"
    | (inside) "array ! 0 \<le> v" "v < last array" by (meson not_less)
  then show ?thesis
  proof cases
    case below
    then have "getLowerBound array v = Some 0" by (simp add: getLowerBound_def g0)
    moreover have "\<not> last array \<le> v" using below first_le_last by (meson not_less order_trans)
    moreover have "\<not> array ! 0 \<le> v" using below by (simp add: not_le)
    ultimately show ?thesis using below assms(2) by simp
  next
    case above
    then have r: "getLowerBound array v = Some high"
      by (auto simp: getLowerBound_def g0 gh[unfolded high_def] Let_def high_def dest: leD)
    have nb: "\<not> v < array ! 0" using above(1) by (simp add: not_less)
    have "array ! nat high = last array" using assms(2) h0 by (simp add: last_conv_nth)
    then show ?thesis using r above h0 nb by (auto simp: high_def dest: leD)
  next
    case inside
    have r: "getLowerBound array v = getLowerBound_loop array v 0 high"
      using inside by (auto simp: getLowerBound_def g0 gh[unfolded high_def] Let_def high_def dest: leD)
    have lasth: "array ! nat high = last array" using assms(2) h0 by (simp add: last_conv_nth)
    obtain k where k: "getLowerBound_loop array v 0 high = Some k" "0 \<le> k" "k \<le> high"
      "array ! nat k \<le> v" "k + 1 < int (length array) \<longrightarrow> v < array ! nat (k + 1)"
      using getLowerBound_loop_correct[of array 0 high v] assms h0 inside by (auto simp: high_def)
    have klt: "k < high" using k(3,4) inside(2) lasth by (cases "k = high") (auto simp: not_le[symmetric])
    then have next_gt: "v < array ! nat (k + 1)" using k(5) h0 by simp
    have "\<forall>j < length array. array ! j \<le> v \<longrightarrow> int j \<le> k"
    proof (intro allI impI)
      fix j assume j: "j < length array" "array ! j \<le> v"
      have "\<not> nat (k + 1) \<le> j"
      proof
        assume "nat (k + 1) \<le> j"
        then have "array ! nat (k + 1) \<le> array ! j" using assms(1) j(1) by (simp add: sorted_nth_mono)
        then show False using next_gt j(2) by simp
      qed
      then show "int j \<le> k" using k(2) by linarith
    qed
    moreover have "\<not> v < array ! 0" "\<not> last array \<le> v"
      using inside by (simp_all add: not_less not_le)
    ultimately show ?thesis using r k klt h0 inside next_gt by (auto dest: leD)
  qed
qed

subsection \<open>The line starts computed by the constructor\<close>

lemma constructor_loop_pushes:
  "\<exists>ys. constructor_loop text i starts = starts @ ys
        \<and> (\<forall>y\<in>set ys. int i < y \<and> y \<le> int (length text)) \<and> sorted_wrt (<) ys"
proof (induction "text" i starts rule: constructor_loop.induct)
  case (1 "text" i starts)
  show ?case
  proof (cases "i < length text")
    case False
    then show ?thesis by (subst constructor_loop.simps) simp
  next
    case inside: True
    show ?thesis
    proof (cases "text ! i = lineFeed")
      case True
      obtain ys where ys: "constructor_loop text (i + 1) (starts @ [int (i + 1)]) = (starts @ [int (i + 1)]) @ ys"
        "\<forall>y\<in>set ys. int (i + 1) < y \<and> y \<le> int (length text)" "sorted_wrt (<) ys"
        using "1.IH"(1)[OF inside refl True] by blast
      have "constructor_loop text i starts = starts @ (int (i + 1) # ys)"
        using inside True ys(1) by (subst constructor_loop.simps) simp
      moreover have "\<forall>y\<in>set (int (i + 1) # ys). int i < y \<and> y \<le> int (length text)"
        using ys(2) inside by auto
      moreover have "sorted_wrt (<) (int (i + 1) # ys)" using ys(2,3) by auto
      ultimately show ?thesis by blast
    next
      case notLF: False
      show ?thesis
      proof (cases "text ! i = carriageReturn")
        case True
        define i' where "i' = (if i + 1 < length text \<and> text ! (i + 1) = lineFeed then i + 1 else i)"
        have i': "i \<le> i'" "i' < length text" using inside by (auto simp: i'_def)
        obtain ys where ys: "constructor_loop text (i' + 1) (starts @ [int (i' + 1)]) = (starts @ [int (i' + 1)]) @ ys"
          "\<forall>y\<in>set ys. int (i' + 1) < y \<and> y \<le> int (length text)" "sorted_wrt (<) ys"
          using "1.IH"(2)[OF inside refl notLF True i'_def] by blast
        have "constructor_loop text i starts = starts @ (int (i' + 1) # ys)"
          using inside True notLF ys(1) by (subst constructor_loop.simps) (simp add: i'_def Let_def)
        moreover have "\<forall>y\<in>set (int (i' + 1) # ys). int i < y \<and> y \<le> int (length text)"
          using ys(2) i' by auto
        moreover have "sorted_wrt (<) (int (i' + 1) # ys)" using ys(2,3) by auto
        ultimately show ?thesis by blast
      next
        case False
        obtain ys where ys: "constructor_loop text (i + 1) starts = starts @ ys"
          "\<forall>y\<in>set ys. int (i + 1) < y \<and> y \<le> int (length text)" "sorted_wrt (<) ys"
          using "1.IH"(3)[OF inside refl notLF False] by blast
        have "constructor_loop text i starts = starts @ ys"
          using inside False notLF ys(1) by (subst constructor_loop.simps) simp
        then show ?thesis using ys(2,3) by auto
      qed
    qed
  qed
qed

lemma strict_sorted_le_last:
  fixes xs :: "int list"
  shows "sorted_wrt (<) xs \<Longrightarrow> x \<in> set xs \<Longrightarrow> x \<le> last xs"
proof (induction xs)
  case Nil
  then show ?case by simp
next
  case (Cons a xs)
  show ?case
  proof (cases "xs = []")
    case True
    then show ?thesis using Cons.prems by simp
  next
    case False
    then have "last xs \<in> set xs" by simp
    then have alast: "a < last xs" using Cons.prems(1) by simp
    have l: "last (a # xs) = last xs" using False by simp
    show ?thesis
    proof (cases "x = a")
      case True
      then show ?thesis using alast l by simp
    next
      case neq: False
      then have "x \<in> set xs" using Cons.prems(2) by simp
      moreover have "sorted_wrt (<) xs" using Cons.prems(1) by simp
      ultimately show ?thesis using Cons.IH l by simp
    qed
  qed
qed

lemma lineStarts_shape:
  "\<exists>ys. lineStarts (new_LineTable text) = 0 # ys \<and> sorted_wrt (<) (0 # ys)
        \<and> (\<forall>y\<in>set ys. 0 < y \<and> y \<le> int (length text))
        \<and> last (0 # ys) = int (length text)"
proof -
  obtain ys where ys: "constructor_loop text 0 [0] = [0] @ ys"
    "\<forall>y\<in>set ys. int 0 < y \<and> y \<le> int (length text)" "sorted_wrt (<) ys"
    using constructor_loop_pushes[of "text" 0 "[0]"] by blast
  define starts where "starts = constructor_loop text 0 [0]"
  have st: "starts = 0 # ys" using ys(1) by (simp add: starts_def)
  have sorted0: "sorted_wrt (<) (0 # ys)" using ys(2,3) by auto
  have g: "array_get starts (int (length starts) - 1) = Some (last starts)"
    by (simp add: array_get_def st last_conv_nth)
  show ?thesis
  proof (cases "last starts = int (length text)")
    case True
    then have "lineStarts (new_LineTable text) = 0 # ys"
      using g by (simp add: new_LineTable_def starts_def[symmetric] Let_def st)
    then show ?thesis using sorted0 ys(2) True st by auto
  next
    case False
    then have eq: "lineStarts (new_LineTable text) = 0 # (ys @ [int (length text)])"
      using g by (simp add: new_LineTable_def starts_def[symmetric] Let_def st)
    have le: "\<forall>y\<in>set (0 # ys). y \<le> last (0 # ys)"
      using strict_sorted_le_last[OF sorted0] by blast
    have "last (0 # ys) \<le> int (length text)" using ys(2) by (cases "ys = []") auto
    then have lt: "last (0 # ys) < int (length text)" using False st by simp
    then have all_lt: "\<forall>y\<in>set (0 # ys). y < int (length text)" using le by fastforce
    have "sorted_wrt (<) ((0 # ys) @ [int (length text)])"
      unfolding sorted_wrt_append using sorted0 all_lt by simp
    then have "sorted_wrt (<) (0 # (ys @ [int (length text)]))" by simp
    moreover have "\<forall>y\<in>set (ys @ [int (length text)]). 0 < y \<and> y \<le> int (length text)"
      using ys(2) all_lt by auto
    ultimately show ?thesis using eq by (simp del: sorted_wrt.simps)
  qed
qed

subsection \<open>Termination and the line of an offset\<close>

lemma strict_sorted_length_bound:
  fixes ys :: "int list"
  assumes "sorted_wrt (<) ys" "\<forall>y\<in>set ys. 0 < y \<and> y \<le> int n"
  shows "length ys \<le> n"
proof -
  have "distinct ys" using assms(1) by (simp add: strict_sorted_iff)
  then have "length ys = card (set ys)" by (simp add: distinct_card)
  also have "\<dots> \<le> card {1..int n}"
    using assms(2) by (intro card_mono) auto
  finally show ?thesis by simp
qed

lemma lineStarts_length:
  "lineStarts (new_LineTable text) \<noteq> [] \<and> length (lineStarts (new_LineTable text)) \<le> length text + 1"
proof -
  obtain ys where ys: "lineStarts (new_LineTable text) = 0 # ys" "sorted_wrt (<) (0 # ys)"
    "\<forall>y\<in>set ys. 0 < y \<and> y \<le> int (length text)"
    using lineStarts_shape[of "text"] by blast
  have "length ys \<le> length text"
    using strict_sorted_length_bound[of ys "length text"] ys(2,3) by simp
  then show ?thesis using ys(1) by simp
qed

lemma getLowerBound_loop_iteration:
  assumes "low < high" "high - low < 2 ^ 31"
  shows "\<exists>low' high'. getLowerBound_loop array v low high = getLowerBound_loop array v low' high'
           \<and> low \<le> low' \<and> low' \<le> high' \<and> high' \<le> high \<and> high' - low' < high - low"
proof -
  define mid where "mid = high - shiftRight1 (high - low)"
  have m: "low < mid" "mid \<le> high" using mid_in_range[OF assms] by (simp_all add: mid_def)
  show ?thesis
  proof (cases "js_lt v (array_get array mid)")
    case True
    then have "getLowerBound_loop array v low high = getLowerBound_loop array v low (mid - 1)"
      using assms(1) by (subst getLowerBound_loop.simps) (simp add: Let_def mid_def)
    then show ?thesis using m by (intro exI[of _ low] exI[of _ "mid - 1"]) simp
  next
    case False
    then have "getLowerBound_loop array v low high = getLowerBound_loop array v mid high"
      using assms(1) by (subst getLowerBound_loop.simps) (simp add: Let_def mid_def)
    then show ?thesis using m by (intro exI[of _ mid] exI[of _ high]) simp
  qed
qed

lemma lineStarts_sorted:
  "sorted_wrt (<) (lineStarts (new_LineTable text))" "sorted (lineStarts (new_LineTable text))"
  "lineStarts (new_LineTable text) ! 0 = 0" "last (lineStarts (new_LineTable text)) = int (length text)"
proof -
  obtain ys where ys: "lineStarts (new_LineTable text) = 0 # ys" "sorted_wrt (<) (0 # ys)"
    "last (0 # ys) = int (length text)"
    using lineStarts_shape[of "text"] by blast
  show "sorted_wrt (<) (lineStarts (new_LineTable text))" using ys by simp
  then show "sorted (lineStarts (new_LineTable text))" by (rule strict_sorted_imp_sorted)
  show "lineStarts (new_LineTable text) ! 0 = 0" using ys by simp
  show "last (lineStarts (new_LineTable text)) = int (length text)" using ys by simp
qed

lemma new_LineTable_empty: "lineStarts (new_LineTable []) = [0]"
  by (simp add: new_LineTable_def constructor_loop.simps array_get_def)

lemma lt_anb: "lineStarts (new_LineTable (ascii ''a\<newline>b'')) = [0, 2, 3]"
  by (simp add: new_LineTable_def ascii_def constructor_loop.simps lineFeed_def carriageReturn_def array_get_def)


section \<open>Properties of index.ts\<close>

subsection \<open>Matches of the word pattern\<close>

lemma wordRegex_exec_Some:
  assumes "wordRegex_exec s lastIndex = Some (matchIndex, replacedWord)"
  shows "lastIndex \<le> matchIndex" "matchIndex < length s" "replacedWord \<noteq> []"
    "matchIndex + length replacedWord \<le> length s"
    "replacedWord = take (length replacedWord) (drop matchIndex s)"
    "isWordStart (s ! matchIndex)"
proof -
  define index where "index = lastIndex + length (takeWhile (\<lambda>c. \<not> isWordStart c) (drop lastIndex s))"
  have a: "index < length s" "matchIndex = index"
    "replacedWord = s ! index # takeWhile isWordPart (drop (index + 1) s)"
    using assms by (auto simp: wordRegex_exec_def Let_def index_def split: if_splits)
  show "lastIndex \<le> matchIndex" using a by (simp add: index_def)
  show "matchIndex < length s" using a by simp
  show "replacedWord \<noteq> []" using a by simp
  have len: "length (takeWhile isWordPart (drop (index + 1) s)) \<le> length s - (index + 1)"
    using length_takeWhile_le[of isWordPart "drop (index + 1) s"] by simp
  then show "matchIndex + length replacedWord \<le> length s" using a by simp
  have d: "drop index s = s ! index # drop (index + 1) s"
    using a(1) by (simp add: Cons_nth_drop_Suc)
  have "takeWhile isWordPart (drop (index + 1) s)
          = take (length (takeWhile isWordPart (drop (index + 1) s))) (drop (index + 1) s)"
    by (metis takeWhile_eq_take)
  then show "replacedWord = take (length replacedWord) (drop matchIndex s)"
    using a d by simp
  define n where "n = length (takeWhile (\<lambda>c. \<not> isWordStart c) (drop lastIndex s))"
  have "n < length (drop lastIndex s)" using a by (simp add: index_def n_def)
  then have "\<not> \<not> isWordStart (drop lastIndex s ! n)"
    unfolding n_def by (rule nth_length_takeWhile)
  moreover have "drop lastIndex s ! n = s ! index"
    using a by (simp add: index_def n_def)
  ultimately show "isWordStart (s ! matchIndex)" using a by simp
qed

subsection \<open>One pass of the loop, and all of them\<close>

lemma loop_body_cases:
  assumes "loop_body env opts path uri text lines lineTable matchIndex replacedWord st = (out, st')"
  shows "case get1BasedLineAndColumn lineTable (int matchIndex) of
           None \<Rightarrow> out = Some NeverReturns \<and> st' = st
         | Some lc \<Rightarrow>
             if commentRegex_test (tested_line lines lc) then out = None \<and> st' = st
             else (let c = cycle (jumpToDef opts) uri text (versionNumber st) (matchIndex, replacedWord, lc) in
               (out \<noteq> None \<and> versionNumber st' = versionNumber st + 1 \<and> sent st' = sent st @ take 2 c
                  \<and> reported st' = reported st)
             \<or> (out \<noteq> None \<and> versionNumber st' = versionNumber st + 2 \<and> sent st' = sent st @ c
                  \<and> reported st' = reported st)
             \<or> (out = None \<and> versionNumber st' = versionNumber st + 2 \<and> sent st' = sent st @ c
                  \<and> (\<exists>t n. reported st' = reported st @ [\<lparr> line = line lc, column = column lc,
                         file = path, time = t, numberOfResults = n \<rparr>])))"
  using assms
  by (auto simp: loop_body_def Let_def send_def reporter_def cycle_def
           split: option.splits if_splits reply.splits sum.splits)


lemma length_cycle [simp]: "length (cycle jump uri text v tok) = 3"
  by (simp add: cycle_def split: prod.splits)

lemma run_result_nothing: "out = None \<longrightarrow> M = [] \<Longrightarrow> run_result jump uri text path M st out st"
  unfolding run_result_def
  by (rule exI[of _ 0], rule exI[of _ "[]"]) auto

lemma run_result_request_failed:
  assumes "out \<noteq> None" "versionNumber st' = versionNumber st + 1"
    "sent st' = sent st @ take 2 (cycle jump uri text (versionNumber st) tok)"
    "reported st' = reported st"
  shows "run_result jump uri text path (tok # M) st out st'"
  unfolding run_result_def
  using assms by (intro exI[of _ 0] exI[of _ "[]"]) (auto simp: numeral_2_eq_2)

lemma run_result_classification_failed:
  assumes "out \<noteq> None" "versionNumber st' = versionNumber st + 2"
    "sent st' = sent st @ cycle jump uri text (versionNumber st) tok"
    "reported st' = reported st"
  shows "run_result jump uri text path (tok # M) st out st'"
  unfolding run_result_def
  using assms by (intro exI[of _ 1] exI[of _ "[]"]) auto

lemma run_result_step:
  assumes r: "run_result jump uri text path M st1 out st'"
    and v: "versionNumber st1 = versionNumber st + 2"
    and s: "sent st1 = sent st @ cycle jump uri text (versionNumber st) tok"
    and m: "reported st1 = reported st @ [m]"
      "line m = line (snd (snd tok))" "column m = column (snd (snd tok))" "file m = path"
  shows "run_result jump uri text path (tok # M) st out st'"
proof -
  obtain j ms where a: "reported st' = reported st1 @ ms"
    "list_all2 (\<lambda>m tok. line m = line (snd (snd tok)) \<and> column m = column (snd (snd tok))
                              \<and> file m = path) ms (take (length ms) M)"
    "j \<le> length M"
    "(sent st' = sent st1 @ take (3 * j) (cycles jump uri text (versionNumber st1) M)
              \<and> versionNumber st' = versionNumber st1 + 2 * int j
              \<and> (length ms = j \<or> (Suc (length ms) = j \<and> out \<noteq> None))
              \<and> (out = None \<longrightarrow> j = length M))
           \<or> (sent st' = sent st1 @ take (3 * j + 2) (cycles jump uri text (versionNumber st1) M)
              \<and> versionNumber st' = versionNumber st1 + 2 * int j + 1
              \<and> length ms = j \<and> j < length M \<and> out \<noteq> None)"
    using r unfolding run_result_def by blast
  have t1: "\<And>n. take (3 * Suc j + n) (cycles jump uri text (versionNumber st) (tok # M))
        = cycle jump uri text (versionNumber st) tok @ take (3 * j + n) (cycles jump uri text (versionNumber st1) M)"
    by (simp add: v)
  have t0: "take (3 * Suc j) (cycles jump uri text (versionNumber st) (tok # M))
        = cycle jump uri text (versionNumber st) tok @ take (3 * j) (cycles jump uri text (versionNumber st1) M)"
    using t1[of 0] by simp
  show ?thesis
    unfolding run_result_def
  proof (intro exI[of _ "Suc j"] exI[of _ "m # ms"] conjI)
    show "reported st' = reported st @ m # ms" using a(1) m(1) by simp
    show "list_all2 (\<lambda>m tok. line m = line (snd (snd tok)) \<and> column m = column (snd (snd tok))
                              \<and> file m = path) (m # ms) (take (length (m # ms)) (tok # M))"
      using a(2) m(2-4) by simp
    show "Suc j \<le> length (tok # M)" using a(3) by simp
    show "(sent st' = sent st @ take (3 * Suc j) (cycles jump uri text (versionNumber st) (tok # M))
              \<and> versionNumber st' = versionNumber st + 2 * int (Suc j)
              \<and> (length (m # ms) = Suc j \<or> (Suc (length (m # ms)) = Suc j \<and> out \<noteq> None))
              \<and> (out = None \<longrightarrow> Suc j = length (tok # M)))
           \<or> (sent st' = sent st @ take (3 * Suc j + 2) (cycles jump uri text (versionNumber st) (tok # M))
              \<and> versionNumber st' = versionNumber st + 2 * int (Suc j) + 1
              \<and> length (m # ms) = Suc j \<and> Suc j < length (tok # M) \<and> out \<noteq> None)"
      using a(4)
    proof
      assume b: "sent st' = sent st1 @ take (3 * j) (cycles jump uri text (versionNumber st1) M)
              \<and> versionNumber st' = versionNumber st1 + 2 * int j
              \<and> (length ms = j \<or> (Suc (length ms) = j \<and> out \<noteq> None))
              \<and> (out = None \<longrightarrow> j = length M)"
      then have "sent st' = sent st @ take (3 * Suc j) (cycles jump uri text (versionNumber st) (tok # M))"
        unfolding t0 using s by simp
      then show ?thesis using b v by auto
    next
      assume b: "sent st' = sent st1 @ take (3 * j + 2) (cycles jump uri text (versionNumber st1) M)
              \<and> versionNumber st' = versionNumber st1 + 2 * int j + 1
              \<and> length ms = j \<and> j < length M \<and> out \<noteq> None"
      then have "sent st' = sent st @ take (3 * Suc j + 2) (cycles jump uri text (versionNumber st) (tok # M))"
        unfolding t1 using s by simp
      then show ?thesis using b v by auto
    qed
  qed
qed

lemma token_loop_run:
  "token_loop env opts path uri text lines lineTable lastIndex st = (out, st') \<Longrightarrow>
   run_result (jumpToDef opts) uri text path (measured lines lineTable (matches_from text lastIndex)) st out st'"
proof (induction env opts path uri "text" lines lineTable lastIndex st rule: token_loop.induct)
  case (1 env opts path uri "text" lines lineTable lastIndex st)
  show ?case
  proof (cases "wordRegex_exec text lastIndex")
    case None
    then have "out = None" "st' = st" "matches_from text lastIndex = []"
      using "1.prems" by (simp_all add: token_loop.simps matches_from.simps)
    then show ?thesis by (simp add: run_result_nothing)
  next
    case (Some a)
    obtain matchIndex replacedWord where a: "a = (matchIndex, replacedWord)" by (cases a)
    obtain o1 st1 where body: "loop_body env opts path uri text lines lineTable matchIndex replacedWord st = (o1, st1)"
      by (cases "loop_body env opts path uri text lines lineTable matchIndex replacedWord st")
    define rest where "rest = matches_from text (matchIndex + length replacedWord)"
    have ms: "matches_from text lastIndex = (matchIndex, replacedWord) # rest"
      using Some a by (subst matches_from.simps) (simp add: rest_def)
    have stop: "o1 \<noteq> None \<Longrightarrow> out = o1 \<and> st' = st1"
      using "1.prems" Some a body by (subst (asm) token_loop.simps) auto
    have continue: "o1 = None \<Longrightarrow>
        token_loop env opts path uri text lines lineTable (matchIndex + length replacedWord) st1 = (out, st')"
      using "1.prems" Some a body by (subst (asm) token_loop.simps) auto
    have IH: "o1 = None \<Longrightarrow> run_result (jumpToDef opts) uri text path (measured lines lineTable rest) st1 out st'"
      using "1.IH"[OF Some a[symmetric] body[symmetric]] continue by (simp add: rest_def)
    note cases = loop_body_cases[OF body]
    show ?thesis
    proof (cases "get1BasedLineAndColumn lineTable (int matchIndex)")
      case None
      then have "o1 = Some NeverReturns" "st1 = st" using cases by simp_all
      moreover have "measured lines lineTable (matches_from text lastIndex) = []"
        using None ms by simp
      ultimately show ?thesis using stop by (simp add: run_result_nothing)
    next
      case (Some lc)
      show ?thesis
      proof (cases "commentRegex_test (tested_line lines lc)")
        case True
        then have "o1 = None" "st1 = st" using cases Some by simp_all
        moreover have "measured lines lineTable (matches_from text lastIndex) = measured lines lineTable rest"
          using Some True ms by simp
        ultimately show ?thesis using IH by simp
      next
        case False
        define tok where "tok = (matchIndex, replacedWord, lc)"
        have M: "measured lines lineTable (matches_from text lastIndex) = tok # measured lines lineTable rest"
          using Some False ms by (simp add: tok_def)
        define c where "c = cycle (jumpToDef opts) uri text (versionNumber st) tok"
        from cases Some False
        consider (req) "o1 \<noteq> None" "versionNumber st1 = versionNumber st + 1" "sent st1 = sent st @ take 2 c"
            "reported st1 = reported st"
          | (cls) "o1 \<noteq> None" "versionNumber st1 = versionNumber st + 2" "sent st1 = sent st @ c"
            "reported st1 = reported st"
          | (ok) t n where "o1 = None" "versionNumber st1 = versionNumber st + 2" "sent st1 = sent st @ c"
            "reported st1 = reported st @ [\<lparr> line = line lc, column = column lc,
                         file = path, time = t, numberOfResults = n \<rparr>]"
          by (auto simp: Let_def c_def tok_def)
        then show ?thesis
        proof cases
          case req
          then show ?thesis unfolding M using stop
            by (auto intro!: run_result_request_failed simp: c_def)
        next
          case cls
          then show ?thesis unfolding M using stop
            by (auto intro!: run_result_classification_failed simp: c_def)
        next
          case ok
          show ?thesis unfolding M
            by (rule run_result_step[OF IH[OF ok(1)] ok(2) ok(3)[unfolded c_def] ok(4)])
               (simp_all add: tok_def)
        qed
      qed
    qed
  qed
qed

subsection \<open>The messages of one file\<close>

lemma length_cycles [simp]: "length (cycles jump uri text v M) = 3 * length M"
  by (induction M arbitrary: v) simp_all

lemma cycles_nth:
  "k < length M \<Longrightarrow> i < 3 \<Longrightarrow>
   cycles jump uri text v M ! (3 * k + i) = cycle jump uri text (v + 2 * int k) (M ! k) ! i"
proof (induction M arbitrary: k v)
  case Nil
  then show ?case by simp
next
  case (Cons tok M)
  show ?case
  proof (cases k)
    case 0
    then show ?thesis using Cons.prems by (simp add: nth_append)
  next
    case (Suc k')
    have "cycles jump uri text v (tok # M) ! (3 * k + i) = cycles jump uri text (v + 2) M ! (3 * k' + i)"
      using Suc by (simp add: nth_append)
    also have "\<dots> = cycle jump uri text (v + 2 + 2 * int k') (M ! k') ! i"
      using Cons.IH[of k' "v + 2"] Cons.prems Suc by simp
    finally show ?thesis using Suc by (simp add: algebra_simps)
  qed
qed

lemma versions_append: "versions (xs @ ys) = versions xs @ versions ys"
  by (induction xs rule: versions.induct) simp_all

lemma versions_cycle: "versions (cycle jump uri text v tok) = [v + 1, v + 2]"
  by (cases tok) (simp add: cycle_def measured_request_def)

lemma versions_take2_cycle: "versions (take 2 (cycle jump uri text v tok)) = [v + 1]"
  by (cases tok) (simp add: cycle_def measured_request_def numeral_2_eq_2)

lemma upt_shift2: "[0..<n + 2] = 0 # 1 # map (\<lambda>i. i + 2) [0..<n]"
proof -
  have "map (\<lambda>i. i + 2) [0..<n] = [2..<n + 2]" by (rule map_add_upt)
  moreover have "[0..<n + 2] = 0 # 1 # [2..<n + 2]"
    by (simp add: upt_conv_Cons numeral_2_eq_2 del: upt_Suc)
  ultimately show ?thesis by simp
qed

lemma versions_whole_cycles:
  "j \<le> length M \<Longrightarrow>
   versions (take (3 * j) (cycles jump uri text v M)) = map (\<lambda>i. v + 1 + int i) [0..<2 * j]"
proof (induction M arbitrary: j v)
  case Nil
  then show ?case by simp
next
  case (Cons tok M)
  show ?case
  proof (cases j)
    case 0
    then show ?thesis by simp
  next
    case (Suc j')
    have "versions (take (3 * j) (cycles jump uri text v (tok # M)))
            = [v + 1, v + 2] @ versions (take (3 * j') (cycles jump uri text (v + 2) M))"
      using Suc by (simp add: versions_append versions_cycle)
    also have "\<dots> = [v + 1, v + 2] @ map (\<lambda>i. v + 2 + 1 + int i) [0..<2 * j']"
      using Cons.IH[of j' "v + 2"] Cons.prems Suc by simp
    also have "\<dots> = map (\<lambda>i. v + 1 + int i) [0..<2 * j' + 2]"
      unfolding upt_shift2 by (simp add: comp_def algebra_simps)
    finally show ?thesis using Suc by simp
  qed
qed

lemma versions_broken_cycle:
  assumes "j < length M"
  shows "versions (take (3 * j + 2) (cycles jump uri text v M)) = map (\<lambda>i. v + 1 + int i) [0..<2 * j + 1]"
  using assms
proof (induction M arbitrary: j v)
  case Nil
  then show ?case by simp
next
  case (Cons tok M)
  show ?case
  proof (cases j)
    case 0
    then show ?thesis using versions_take2_cycle[of jump uri "text" v tok] by (simp add: numeral_2_eq_2)
  next
    case (Suc j')
    have "versions (take (3 * j + 2) (cycles jump uri text v (tok # M)))
            = [v + 1, v + 2] @ versions (take (3 * j' + 2) (cycles jump uri text (v + 2) M))"
      using Suc by (simp add: versions_append versions_cycle)
    also have "\<dots> = [v + 1, v + 2] @ map (\<lambda>i. v + 2 + 1 + int i) [0..<2 * j' + 1]"
      using Cons.IH[of j' "v + 2"] Cons.prems Suc by simp
    also have "\<dots> = map (\<lambda>i. v + 1 + int i) [0..<(2 * j' + 1) + 2]"
      unfolding upt_shift2 by (simp add: comp_def algebra_simps)
    finally show ?thesis using Suc by simp
  qed
qed

lemma process_file_run:
  assumes "process_file env opts path st = (out, st')"
  shows "run_result (jumpToDef opts) (pathToFileURL env (realpathSync env path)) (readFileSync env path)
           path (measured_tokens (readFileSync env path))
           (send (DidOpenTextDocumentNotification
                    (TextDocumentItem (pathToFileURL env (realpathSync env path)) (ascii ''codeql'') 1
                       (readFileSync env path)))
              (st\<lparr> versionNumber := 1 \<rparr>))
           out st'"
  using assms token_loop_run unfolding process_file_def measured_tokens_def Let_def by simp

lemma process_file_trace:
  assumes run: "process_file env opts path st = (out, st')"
  shows "\<exists>n. sent st' = sent st @ new_messages st st'
     \<and> reported st' = reported st @ new_measurements st st'
     \<and> new_messages st st' =
          DidOpenTextDocumentNotification
            (TextDocumentItem (pathToFileURL env (realpathSync env path)) (ascii ''codeql'') 1
               (readFileSync env path))
          # take n (cycles (jumpToDef opts) (pathToFileURL env (realpathSync env path))
                      (readFileSync env path) 1 (measured_tokens (readFileSync env path)))
     \<and> n \<le> 3 * length (measured_tokens (readFileSync env path))
     \<and> 3 * length (new_measurements st st') \<le> n
     \<and> list_all2 (\<lambda>m tok. line m = line (snd (snd tok)) \<and> column m = column (snd (snd tok))
                            \<and> file m = path)
           (new_measurements st st')
           (take (length (new_measurements st st')) (measured_tokens (readFileSync env path)))
     \<and> versions (new_messages st st') = map (\<lambda>i. 1 + int i) [0..<length (versions (new_messages st st'))]
     \<and> versionNumber st' = int (length (versions (new_messages st st')))
     \<and> (out = None \<longrightarrow> n = 3 * length (measured_tokens (readFileSync env path))
           \<and> length (new_measurements st st') = length (measured_tokens (readFileSync env path))
           \<and> versionNumber st' = 1 + 2 * int (length (measured_tokens (readFileSync env path))))"
proof -
  define uri where "uri = pathToFileURL env (realpathSync env path)"
  define tx where "tx = readFileSync env path"
  define M where "M = measured_tokens tx"
  define opened where "opened = DidOpenTextDocumentNotification (TextDocumentItem uri (ascii ''codeql'') 1 tx)"
  define st0 where "st0 = send opened (st\<lparr> versionNumber := 1 \<rparr>)"
  have st0: "versionNumber st0 = 1" "sent st0 = sent st @ [opened]" "reported st0 = reported st"
    by (simp_all add: st0_def send_def)
  have "run_result (jumpToDef opts) uri tx path M st0 out st'"
    using process_file_run[OF run] by (simp add: uri_def tx_def M_def st0_def opened_def)
  then obtain j ms where r: "reported st' = reported st0 @ ms"
    "list_all2 (\<lambda>m tok. line m = line (snd (snd tok)) \<and> column m = column (snd (snd tok))
                              \<and> file m = path) ms (take (length ms) M)"
    "j \<le> length M"
    "(sent st' = sent st0 @ take (3 * j) (cycles (jumpToDef opts) uri tx (versionNumber st0) M)
              \<and> versionNumber st' = versionNumber st0 + 2 * int j
              \<and> (length ms = j \<or> (Suc (length ms) = j \<and> out \<noteq> None))
              \<and> (out = None \<longrightarrow> j = length M))
           \<or> (sent st' = sent st0 @ take (3 * j + 2) (cycles (jumpToDef opts) uri tx (versionNumber st0) M)
              \<and> versionNumber st' = versionNumber st0 + 2 * int j + 1
              \<and> length ms = j \<and> j < length M \<and> out \<noteq> None)"
    unfolding run_result_def by blast
  have ms: "new_measurements st st' = ms" "reported st' = reported st @ new_measurements st st'"
    using r(1) st0(3) by (simp_all add: new_measurements_def)
  from r(4) show ?thesis
  proof
    assume a: "sent st' = sent st0 @ take (3 * j) (cycles (jumpToDef opts) uri tx (versionNumber st0) M)
              \<and> versionNumber st' = versionNumber st0 + 2 * int j
              \<and> (length ms = j \<or> (Suc (length ms) = j \<and> out \<noteq> None))
              \<and> (out = None \<longrightarrow> j = length M)"
    then have new: "new_messages st st' = opened # take (3 * j) (cycles (jumpToDef opts) uri tx 1 M)"
      and s: "sent st' = sent st @ new_messages st st'"
      using st0 by (simp_all add: new_messages_def)
    have v: "versions (new_messages st st') = 1 # map (\<lambda>i. 1 + 1 + int i) [0..<2 * j]"
      unfolding new using versions_whole_cycles[OF r(3), of "jumpToDef opts" uri tx 1]
      by (simp add: opened_def)
    have len: "length (versions (new_messages st st')) = 2 * j + 1" unfolding v by simp
    have "map (\<lambda>i. 1 + int i) [0..<2 * j + 1] = 1 # map (\<lambda>i. 1 + 1 + int i) [0..<2 * j]"
      by (simp add: upt_conv_Cons map_Suc_upt[symmetric] del: upt_Suc)
    then have v': "versions (new_messages st st') = map (\<lambda>i. 1 + int i) [0..<length (versions (new_messages st st'))]"
      using v len by simp
    show ?thesis
      apply (rule exI[of _ "3 * j"])
      using a s new ms r(2,3) st0(1) v' len
      by (auto simp: uri_def tx_def M_def opened_def)
  next
    assume a: "sent st' = sent st0 @ take (3 * j + 2) (cycles (jumpToDef opts) uri tx (versionNumber st0) M)
              \<and> versionNumber st' = versionNumber st0 + 2 * int j + 1
              \<and> length ms = j \<and> j < length M \<and> out \<noteq> None"
    then have new: "new_messages st st' = opened # take (3 * j + 2) (cycles (jumpToDef opts) uri tx 1 M)"
      and s: "sent st' = sent st @ new_messages st st'"
      using st0 by (simp_all add: new_messages_def)
    have jl: "j < length M" using a by simp
    have v: "versions (new_messages st st') = 1 # map (\<lambda>i. 1 + 1 + int i) [0..<2 * j + 1]"
      unfolding new using versions_broken_cycle[OF jl, of "jumpToDef opts" uri tx 1]
      by (simp add: opened_def)
    have len: "length (versions (new_messages st st')) = 2 * j + 2" unfolding v by simp
    have "map (\<lambda>i. 1 + int i) [0..<2 * j + 2] = 1 # map (\<lambda>i. 1 + 1 + int i) [0..<2 * j + 1]"
      by (simp add: upt_conv_Cons map_Suc_upt[symmetric] del: upt_Suc)
    then have v': "versions (new_messages st st') = map (\<lambda>i. 1 + int i) [0..<length (versions (new_messages st st'))]"
      using v len by simp
    show ?thesis
      apply (rule exI[of _ "3 * j + 2"])
      using a s new ms r(2,3) st0(1) v' len
      by (auto simp: uri_def tx_def M_def opened_def)
  qed
qed


subsection \<open>The example runs\<close>

lemmas eval_regex = wordRegex_exec_def ascii_def isWordStart_def isWordPart_def
lemmas eval_table = new_LineTable_def ascii_def constructor_loop.simps lineFeed_def carriageReturn_def array_get_def
lemmas eval_position = get1BasedLineAndColumn_def getLineFromOffset_def getLowerBound_def array_get_def
  getLowerBound_loop.simps shiftRight1_def toInt32_def getColumnFromLineAndOffset_def
lemmas eval_comment = commentRegex_test_def tested_line_def array_get_def isWhiteSpace_def ascii_def
lemmas eval_text = replacedText_def substring_def substring_from_def ascii_def

lemma foo_bar_lengths: "length (ascii ''foo'') = 3" "length (ascii ''bar'') = 3"
  by (simp_all add: ascii_def)

lemma foo_bar_matches:
  "wordRegex_exec (ascii ''foo bar'') 0 = Some (0, ascii ''foo'')"
  "wordRegex_exec (ascii ''foo bar'') 3 = Some (4, ascii ''bar'')"
  "wordRegex_exec (ascii ''foo bar'') 7 = None"
  by (simp_all add: eval_regex)

lemma foo_bar_table: "new_LineTable (ascii ''foo bar'') = \<lparr> lineStarts = [0, 7] \<rparr>"
  by (simp add: eval_table)

lemma foo_bar_positions:
  "get1BasedLineAndColumn \<lparr> lineStarts = [0, 7] \<rparr> 0 = Some \<lparr> line = 1, column = Some 1 \<rparr>"
  "get1BasedLineAndColumn \<lparr> lineStarts = [0, 7] \<rparr> 4 = Some \<lparr> line = 1, column = Some 5 \<rparr>"
  by (simp_all add: eval_position)

lemma foo_bar_lines: "split_lines (ascii ''foo bar'') = [ascii ''foo bar'']"
  by (simp add: ascii_def lineFeed_def carriageReturn_def)

lemma foo_bar_not_comment:
  "\<not> commentRegex_test (tested_line [ascii ''foo bar''] \<lparr> line = 1, column = c \<rparr>)"
  by (simp add: eval_comment)

lemma foo_bar_probes:
  "replacedText False (ascii ''foo bar'') 0 3 = ascii '' bar''"
  "replacedText False (ascii ''foo bar'') 4 7 = ascii ''foo ''"
  "replacedText True (ascii ''foo bar'') 0 3 = ascii ''foo  bar''"
  "replacedText True (ascii ''foo bar'') 4 7 = ascii ''foo bar ''"
  by (simp_all add: eval_text)

lemma numberOfResults_of_Null: "numberOfResults_of Null = Inr (Number 0)"
  by (simp add: numberOfResults_of_def)

lemma Math_round_0: "Math_round 0 = 0"
  by (simp add: Math_round_def)

lemmas eval_body = loop_body_def send_def reporter_def Let_def measured_request_def
  numberOfResults_of_Null Math_round_0 foo_bar_lengths

lemma foo_bar_completion_run:
  "process_file (example_env (ascii ''foo bar'') (Result Null)) completion_options (ascii ''a.ql'') fresh =
     (None, \<lparr> versionNumber = 5,
        sent = [DidOpenTextDocumentNotification (TextDocumentItem (ascii ''file://'' @ ascii ''a.ql'') (ascii ''codeql'') 1 (ascii ''foo bar'')),
          DidChangeTextDocumentNotification (VersionedTextDocumentIdentifier (ascii ''file://'' @ ascii ''a.ql'') 2) (ascii '' bar''),
          CompletionRequest (Position 1 (Some 1)) (VersionedTextDocumentIdentifier (ascii ''file://'' @ ascii ''a.ql'') 2),
          DidChangeTextDocumentNotification (VersionedTextDocumentIdentifier (ascii ''file://'' @ ascii ''a.ql'') 3) (ascii ''foo bar''),
          DidChangeTextDocumentNotification (VersionedTextDocumentIdentifier (ascii ''file://'' @ ascii ''a.ql'') 4) (ascii ''foo ''),
          CompletionRequest (Position 1 (Some 5)) (VersionedTextDocumentIdentifier (ascii ''file://'' @ ascii ''a.ql'') 4),
          DidChangeTextDocumentNotification (VersionedTextDocumentIdentifier (ascii ''file://'' @ ascii ''a.ql'') 5) (ascii ''foo bar'')],
        reported = [\<lparr> line = 1, column = Some 1, file = ascii ''a.ql'', time = 0, numberOfResults = Number 0 \<rparr>,
                    \<lparr> line = 1, column = Some 5, file = ascii ''a.ql'', time = 0, numberOfResults = Number 0 \<rparr>] \<rparr>)"
  unfolding process_file_def example_env_def completion_options_def fresh_def
  apply (simp add: Let_def foo_bar_table foo_bar_lines send_def)
  apply (subst token_loop.simps, simp add: foo_bar_matches foo_bar_lengths)
  apply (simp add: eval_body foo_bar_positions foo_bar_not_comment foo_bar_probes)
  apply (subst token_loop.simps, simp add: foo_bar_matches foo_bar_lengths)
  apply (simp add: eval_body foo_bar_positions foo_bar_not_comment foo_bar_probes)
  apply (subst token_loop.simps, simp add: foo_bar_matches foo_bar_lengths)
  done

subsection \<open>Tokens and their messages\<close>

lemma matches_from_exec:
  "(matchIndex, replacedWord) \<in> set (matches_from s lastIndex) \<Longrightarrow>
   \<exists>l. wordRegex_exec s l = Some (matchIndex, replacedWord)"
proof (induction s lastIndex rule: matches_from.induct)
  case (1 s lastIndex)
  show ?case
  proof (cases "wordRegex_exec s lastIndex")
    case None
    then show ?thesis using "1.prems" by (subst (asm) matches_from.simps) simp
  next
    case (Some a)
    obtain i w where a: "a = (i, w)" by (cases a)
    have "(matchIndex, replacedWord) = (i, w)
          \<or> (matchIndex, replacedWord) \<in> set (matches_from s (i + length w))"
      using "1.prems" Some a by (subst (asm) matches_from.simps) simp
    then show ?thesis
    proof
      assume "(matchIndex, replacedWord) = (i, w)"
      then show ?thesis using Some a by auto
    next
      assume "(matchIndex, replacedWord) \<in> set (matches_from s (i + length w))"
      then show ?thesis using "1.IH"[OF Some a[symmetric]] by simp
    qed
  qed
qed

lemma measured_member:
  "(matchIndex, replacedWord, lc) \<in> set (measured lines lineTable toks) \<Longrightarrow>
   (matchIndex, replacedWord) \<in> set toks
   \<and> get1BasedLineAndColumn lineTable (int matchIndex) = Some lc
   \<and> \<not> commentRegex_test (tested_line lines lc)"
  by (induction toks) (auto split: option.splits if_splits)

lemma measured_tokens_member:
  assumes "k < length (measured_tokens text)" "measured_tokens text ! k = (matchIndex, replacedWord, lc)"
  shows "replacedWord \<noteq> []" "matchIndex + length replacedWord \<le> length text"
    "replacedWord = take (length replacedWord) (drop matchIndex text)"
    "get1BasedLineAndColumn (new_LineTable text) (int matchIndex) = Some lc"
    "\<not> commentRegex_test (tested_line (split_lines text) lc)"
    "(matchIndex, replacedWord) \<in> set (matches_from text 0)"
proof -
  have "(matchIndex, replacedWord, lc) \<in> set (measured_tokens text)"
    using assms by (metis nth_mem)
  then have m: "(matchIndex, replacedWord) \<in> set (matches_from text 0)"
    "get1BasedLineAndColumn (new_LineTable text) (int matchIndex) = Some lc"
    "\<not> commentRegex_test (tested_line (split_lines text) lc)"
    using measured_member unfolding measured_tokens_def by blast+
  then obtain l where l: "wordRegex_exec text l = Some (matchIndex, replacedWord)"
    using matches_from_exec by blast
  show "replacedWord \<noteq> []" "matchIndex + length replacedWord \<le> length text"
    "replacedWord = take (length replacedWord) (drop matchIndex text)"
    using wordRegex_exec_Some[OF l] by simp_all
  show "get1BasedLineAndColumn (new_LineTable text) (int matchIndex) = Some lc"
    "\<not> commentRegex_test (tested_line (split_lines text) lc)"
    "(matchIndex, replacedWord) \<in> set (matches_from text 0)"
    using m by simp_all
qed

lemma substring_take: "e \<le> length s \<Longrightarrow> substring s 0 e = take e s"
  by (simp add: substring_def Let_def)

lemma substring_from_drop: "e \<le> length s \<Longrightarrow> substring_from s e = drop e s"
  by (simp add: substring_from_def substring_def Let_def)

lemma replacedText_take_drop:
  assumes "matchIndex \<le> matchEndIndex" "matchEndIndex \<le> length text"
  shows "replacedText jump text matchIndex matchEndIndex =
           (if jump then take matchEndIndex text @ ascii '' '' @ drop matchEndIndex text
            else take matchIndex text @ drop matchEndIndex text)"
  using assms by (simp add: replacedText_def substring_take substring_from_drop)

text \<open>The messages of the \<open>k\<close>-th measured token, by their places among the new messages.\<close>

lemma cycle_message:
  assumes run: "process_file env opts path st = (out, st')"
    and i: "i < 3" and k: "3 * k + i + 1 < length (new_messages st st')"
  shows "k < length (measured_tokens (readFileSync env path))"
    "new_messages st st' ! (3 * k + i + 1) =
       cycle (jumpToDef opts) (pathToFileURL env (realpathSync env path)) (readFileSync env path)
         (1 + 2 * int k) (measured_tokens (readFileSync env path) ! k) ! i"
proof -
  define c where "c = cycles (jumpToDef opts) (pathToFileURL env (realpathSync env path))
                      (readFileSync env path) 1 (measured_tokens (readFileSync env path))"
  obtain n opened where n: "new_messages st st' = opened # take n c"
    "n \<le> 3 * length (measured_tokens (readFileSync env path))"
    using process_file_trace[OF run] unfolding c_def by blast
  have len: "length (new_messages st st') = Suc n" using n by (simp add: c_def)
  then have lt: "3 * k + i < n" using k by simp
  then show kM: "k < length (measured_tokens (readFileSync env path))" using n(2) by simp
  have "new_messages st st' ! (3 * k + i + 1) = c ! (3 * k + i)"
    using n(1) lt by simp
  then show "new_messages st st' ! (3 * k + i + 1) =
       cycle (jumpToDef opts) (pathToFileURL env (realpathSync env path)) (readFileSync env path)
         (1 + 2 * int k) (measured_tokens (readFileSync env path) ! k) ! i"
    unfolding c_def using cycles_nth[OF kM i] by simp
qed


lemma opened_first:
  assumes run: "process_file env opts path st = (out, st')"
  shows "new_messages st st' ! 0 =
           DidOpenTextDocumentNotification
             (TextDocumentItem (pathToFileURL env (realpathSync env path)) (ascii ''codeql'') 1
                (readFileSync env path))"
    "sent st' = sent st @ new_messages st st'"
    "reported st' = reported st @ new_measurements st st'"
  using process_file_trace[OF run] by auto

lemma cycle_parts:
  "cycle jump uri text v (matchIndex, replacedWord, lc) ! 0 =
     DidChangeTextDocumentNotification (VersionedTextDocumentIdentifier uri (v + 1))
       (replacedText jump text matchIndex (matchIndex + length replacedWord))"
  "cycle jump uri text v (matchIndex, replacedWord, lc) ! 1 =
     measured_request jump (Position (line lc) (column lc)) (VersionedTextDocumentIdentifier uri (v + 1))"
  "cycle jump uri text v (matchIndex, replacedWord, lc) ! 2 =
     DidChangeTextDocumentNotification (VersionedTextDocumentIdentifier uri (v + 2)) text"
  by (simp_all add: cycle_def)

lemma is_request_measured_request [simp]: "is_request (measured_request jump p d)"
  by (simp add: measured_request_def)

lemma token_messages:
  assumes run: "process_file env opts path st = (out, st')"
  shows "3 * k + 1 < length (new_messages st st') \<Longrightarrow>
           k < length (measured_tokens (readFileSync env path))
           \<and> new_messages st st' ! (3 * k + 1) =
               (case measured_tokens (readFileSync env path) ! k of (matchIndex, replacedWord, lc) \<Rightarrow>
                  DidChangeTextDocumentNotification
                    (VersionedTextDocumentIdentifier (pathToFileURL env (realpathSync env path))
                       (2 * int k + 2))
                    (replacedText (jumpToDef opts) (readFileSync env path) matchIndex
                       (matchIndex + length replacedWord)))"
    and "3 * k + 2 < length (new_messages st st') \<Longrightarrow>
           k < length (measured_tokens (readFileSync env path))
           \<and> new_messages st st' ! (3 * k + 2) =
               (case measured_tokens (readFileSync env path) ! k of (matchIndex, replacedWord, lc) \<Rightarrow>
                  measured_request (jumpToDef opts) (Position (line lc) (column lc))
                    (VersionedTextDocumentIdentifier (pathToFileURL env (realpathSync env path))
                       (2 * int k + 2)))"
    and "3 * k + 3 < length (new_messages st st') \<Longrightarrow>
           k < length (measured_tokens (readFileSync env path))
           \<and> new_messages st st' ! (3 * k + 3) =
               DidChangeTextDocumentNotification
                 (VersionedTextDocumentIdentifier (pathToFileURL env (realpathSync env path))
                    (2 * int k + 3))
                 (readFileSync env path)"
proof -
  obtain matchIndex replacedWord lc where
    tok: "measured_tokens (readFileSync env path) ! k = (matchIndex, replacedWord, lc)"
    by (cases "measured_tokens (readFileSync env path) ! k")
  have e: "3 * k + 0 + 1 = 3 * k + 1" "3 * k + 1 + 1 = 3 * k + 2" "3 * k + 2 + 1 = 3 * k + 3"
    by simp_all
  have i: "(0::nat) < 3" "(1::nat) < 3" "(2::nat) < 3" by simp_all
  {
    assume "3 * k + 1 < length (new_messages st st')"
    then have k': "3 * k + 0 + 1 < length (new_messages st st')" by simp
    show "k < length (measured_tokens (readFileSync env path))
           \<and> new_messages st st' ! (3 * k + 1) =
               (case measured_tokens (readFileSync env path) ! k of (matchIndex, replacedWord, lc) \<Rightarrow>
                  DidChangeTextDocumentNotification
                    (VersionedTextDocumentIdentifier (pathToFileURL env (realpathSync env path))
                       (2 * int k + 2))
                    (replacedText (jumpToDef opts) (readFileSync env path) matchIndex
                       (matchIndex + length replacedWord)))"
      using cycle_message[OF run i(1) k'] unfolding e tok cycle_parts by (simp add: add.commute)
  }
  {
    assume "3 * k + 2 < length (new_messages st st')"
    then have k': "3 * k + 1 + 1 < length (new_messages st st')" by simp
    show "k < length (measured_tokens (readFileSync env path))
           \<and> new_messages st st' ! (3 * k + 2) =
               (case measured_tokens (readFileSync env path) ! k of (matchIndex, replacedWord, lc) \<Rightarrow>
                  measured_request (jumpToDef opts) (Position (line lc) (column lc))
                    (VersionedTextDocumentIdentifier (pathToFileURL env (realpathSync env path))
                       (2 * int k + 2)))"
      using cycle_message[OF run i(2) k'] unfolding e tok cycle_parts by (simp add: add.commute)
  }
  {
    assume "3 * k + 3 < length (new_messages st st')"
    then have k': "3 * k + 2 + 1 < length (new_messages st st')" by simp
    show "k < length (measured_tokens (readFileSync env path))
           \<and> new_messages st st' ! (3 * k + 3) =
               DidChangeTextDocumentNotification
                 (VersionedTextDocumentIdentifier (pathToFileURL env (realpathSync env path))
                    (2 * int k + 3))
                 (readFileSync env path)"
      using cycle_message[OF run i(3) k'] unfolding e tok cycle_parts by (simp add: add.commute)
  }
qed

lemma measurements_bound:
  assumes run: "process_file env opts path st = (out, st')"
  shows "3 * length (new_measurements st st') < length (new_messages st st')"
proof -
  obtain n opened c where "new_messages st st' = opened # take n c"
    "n \<le> 3 * length (measured_tokens (readFileSync env path))"
    "3 * length (new_measurements st st') \<le> n"
    "c = cycles (jumpToDef opts) (pathToFileURL env (realpathSync env path))
                    (readFileSync env path) 1 (measured_tokens (readFileSync env path))"
    using process_file_trace[OF run] by blast
  then show ?thesis by simp
qed

subsection \<open>Consecutive versions, and the run on \<open>foo bar\<close>\<close>

lemma strictly_increasing_from_1: "sorted_wrt (<) (map (\<lambda>i. 1 + int i) [0..<n])"
  by (simp add: sorted_wrt_map sorted_wrt_iff_nth_less)

lemma foo_bar_run_value:
  "foo_bar_run =
     (None, \<lparr> versionNumber = 5,
        sent = [DidOpenTextDocumentNotification (TextDocumentItem (ascii ''file://'' @ ascii ''a.ql'') (ascii ''codeql'') 1 (ascii ''foo bar'')),
          DidChangeTextDocumentNotification (VersionedTextDocumentIdentifier (ascii ''file://'' @ ascii ''a.ql'') 2) (ascii '' bar''),
          CompletionRequest (Position 1 (Some 1)) (VersionedTextDocumentIdentifier (ascii ''file://'' @ ascii ''a.ql'') 2),
          DidChangeTextDocumentNotification (VersionedTextDocumentIdentifier (ascii ''file://'' @ ascii ''a.ql'') 3) (ascii ''foo bar''),
          DidChangeTextDocumentNotification (VersionedTextDocumentIdentifier (ascii ''file://'' @ ascii ''a.ql'') 4) (ascii ''foo ''),
          CompletionRequest (Position 1 (Some 5)) (VersionedTextDocumentIdentifier (ascii ''file://'' @ ascii ''a.ql'') 4),
          DidChangeTextDocumentNotification (VersionedTextDocumentIdentifier (ascii ''file://'' @ ascii ''a.ql'') 5) (ascii ''foo bar'')],
        reported = [\<lparr> line = 1, column = Some 1, file = ascii ''a.ql'', time = 0, numberOfResults = Number 0 \<rparr>,
                    \<lparr> line = 1, column = Some 5, file = ascii ''a.ql'', time = 0, numberOfResults = Number 0 \<rparr>] \<rparr>)"
  unfolding foo_bar_run_def by (rule foo_bar_completion_run)

lemma foo_bar_run_process:
  "process_file (example_env (ascii ''foo bar'') (Result Null)) completion_options (ascii ''a.ql'') fresh
     = (fst foo_bar_run, snd foo_bar_run)"
  by (simp add: foo_bar_run_def)

lemma foo_bar_measured:
  "measured_tokens (ascii ''foo bar'') =
     [(0, ascii ''foo'', \<lparr> line = 1, column = Some 1 \<rparr>), (4, ascii ''bar'', \<lparr> line = 1, column = Some 5 \<rparr>)]"
proof -
  have "matches_from (ascii ''foo bar'') 0 = [(0, ascii ''foo''), (4, ascii ''bar'')]"
    apply (subst matches_from.simps, simp add: foo_bar_matches foo_bar_lengths)
    apply (subst matches_from.simps, simp add: foo_bar_matches foo_bar_lengths)
    apply (subst matches_from.simps, simp add: foo_bar_matches)
    done
  then show ?thesis
    by (simp add: measured_tokens_def foo_bar_table foo_bar_lines foo_bar_positions foo_bar_not_comment)
qed

subsection \<open>The position of a measurement\<close>

lemma measurement_position:
  assumes run: "process_file env opts path st = (out, st')"
    and k: "k < length (new_measurements st st')"
  shows "k < length (measured_tokens (readFileSync env path))"
    "line (new_measurements st st' ! k) = line (snd (snd (measured_tokens (readFileSync env path) ! k)))"
    "column (new_measurements st st' ! k) = column (snd (snd (measured_tokens (readFileSync env path) ! k)))"
    "file (new_measurements st st' ! k) = path"
proof -
  obtain n where a: "n \<le> 3 * length (measured_tokens (readFileSync env path))"
    "3 * length (new_measurements st st') \<le> n"
    "list_all2 (\<lambda>m tok. line m = line (snd (snd tok)) \<and> column m = column (snd (snd tok))
                            \<and> file m = path)
           (new_measurements st st')
           (take (length (new_measurements st st')) (measured_tokens (readFileSync env path)))"
    using process_file_trace[OF run] by blast
  show kM: "k < length (measured_tokens (readFileSync env path))" using a(1,2) k by simp
  have "take (length (new_measurements st st')) (measured_tokens (readFileSync env path)) ! k
          = measured_tokens (readFileSync env path) ! k"
    using k by simp
  then show "line (new_measurements st st' ! k) = line (snd (snd (measured_tokens (readFileSync env path) ! k)))"
    "column (new_measurements st st' ! k) = column (snd (snd (measured_tokens (readFileSync env path) ! k)))"
    "file (new_measurements st st' ! k) = path"
    using list_all2_nthD[OF a(3) k] by simp_all
qed

lemma get1BasedLineAndColumn_Some:
  assumes "get1BasedLineAndColumn t offset = Some lc"
  shows "\<exists>l0. getLineFromOffset t offset = Some l0 \<and> line lc = l0 + 1
           \<and> column lc = map_option (\<lambda>c. c + 1) (getColumnFromLineAndOffset t l0 offset)"
  using assms by (auto simp: get1BasedLineAndColumn_def Let_def split: option.splits)

lemma getLineFromOffset_range:
  assumes "length text < 2 ^ 31"
  shows "\<exists>k. getLineFromOffset (new_LineTable text) offset = Some k
           \<and> 0 \<le> k \<and> k < int (length (lineStarts (new_LineTable text)))
           \<and> (0 \<le> offset \<longrightarrow> lineStarts (new_LineTable text) ! nat k \<le> offset
                 \<and> (\<forall>j < length (lineStarts (new_LineTable text)).
                       lineStarts (new_LineTable text) ! j \<le> offset \<longrightarrow> int j \<le> k))"
proof -
  define starts where "starts = lineStarts (new_LineTable text)"
  have ne: "starts \<noteq> []" and len: "length starts \<le> 2 ^ 31"
    using lineStarts_length[of "text"] assms by (simp_all add: starts_def)
  have srt: "sorted starts" and zero: "starts ! 0 = 0"
    using lineStarts_sorted(2,3)[of "text"] by (simp_all add: starts_def)
  show ?thesis
    unfolding getLineFromOffset_def starts_def[symmetric]
    using getLowerBound_sorted[OF srt ne len, of offset] zero by auto
qed

lemma column_in_table:
  assumes "length text < 2 ^ 31" "getLineFromOffset (new_LineTable text) offset = Some l0"
  shows "\<exists>start. getStartOfLine (new_LineTable text) l0 = Some start
           \<and> getColumnFromLineAndOffset (new_LineTable text) l0 offset = Some (offset - start)"
proof -
  obtain k where "getLineFromOffset (new_LineTable text) offset = Some k" "0 \<le> k"
    "k < int (length (lineStarts (new_LineTable text)))"
    using getLineFromOffset_range[OF assms(1), of offset] by blast
  then show ?thesis
    using assms(2) by (simp add: getColumnFromLineAndOffset_def getStartOfLine_def array_get_def)
qed

subsection \<open>The number of results\<close>

text \<open>
  Primitive values other than \<open>null\<close> are not among the declared results of the two
  requests; on them the classification gives 0 or throws.
\<close>

lemma numberOfResults_of_primitive:
  "numberOfResults_of (Boolean False) = Inr (Number 0)"
  "numberOfResults_of (Number 0) = Inr (Number 0)"
  "numberOfResults_of (String []) = Inr (Number 0)"
  "numberOfResults_of (Boolean True) = Inl TypeError"
  "n \<noteq> 0 \<Longrightarrow> numberOfResults_of (Number n) = Inl TypeError"
  "s \<noteq> [] \<Longrightarrow> numberOfResults_of (String s) = Inl TypeError"
  by (simp_all add: numberOfResults_of_def)

lemma loop_body_reports:
  assumes "loop_body env opts path uri text lines lineTable matchIndex replacedWord st = (out, st')"
    and "reported st' \<noteq> reported st"
  shows "\<exists>result m. server env (take (length (sent st) + 2) (sent st')) = Result result
           \<and> reported st' = reported st @ [m]
           \<and> numberOfResults_of result = Inr (numberOfResults m)"
  using assms
  by (auto simp: loop_body_def Let_def send_def reporter_def
           split: option.splits if_splits reply.splits sum.splits)

lemma foo_first_body:
  "loop_body (example_env (ascii ''foo bar'') (Result (Array [Null, Null, Null]))) completion_options
     (ascii ''a.ql'') (ascii ''u'') (ascii ''foo bar'') [ascii ''foo bar''] \<lparr> lineStarts = [0, 7] \<rparr>
     0 (ascii ''foo'') fresh =
   (None, \<lparr> versionNumber = 2,
      sent = [DidChangeTextDocumentNotification (VersionedTextDocumentIdentifier (ascii ''u'') 1) (ascii '' bar''),
              CompletionRequest (Position 1 (Some 1)) (VersionedTextDocumentIdentifier (ascii ''u'') 1),
              DidChangeTextDocumentNotification (VersionedTextDocumentIdentifier (ascii ''u'') 2) (ascii ''foo bar'')],
      reported = [\<lparr> line = 1, column = Some 1, file = ascii ''a.ql'', time = 0,
                    numberOfResults = Number 3 \<rparr>] \<rparr>)"
  by (simp add: example_env_def completion_options_def fresh_def loop_body_def send_def reporter_def
        Let_def measured_request_def Math_round_0 foo_bar_lengths foo_bar_positions foo_bar_not_comment
        foo_bar_probes numberOfResults_of_def)

subsection \<open>Line terminators\<close>

lemma split_first_above:
  "{p. i < p \<and> P p} = (if P (Suc i) then {Suc i} else {}) \<union> {p. Suc i < p \<and> P p}"
proof (rule set_eqI)
  fix p
  have "i < p \<longleftrightarrow> p = Suc i \<or> Suc i < p" by arith
  then show "p \<in> {p. i < p \<and> P p} \<longleftrightarrow>
      p \<in> (if P (Suc i) then {Suc i} else {}) \<union> {p. Suc i < p \<and> P p}"
    by (cases "p = Suc i") simp_all
qed

lemma constructor_loop_set:
  "set (constructor_loop text i starts) = set starts \<union> int ` {p. i < p \<and> terminator_ends_at text p}"
proof (induction "text" i starts rule: constructor_loop.induct)
  case (1 "text" i starts)
  show ?case
  proof (cases "i < length text")
    case False
    then have "{p. i < p \<and> terminator_ends_at text p} = {}"
      by (auto simp: terminator_ends_at_def)
    moreover have "constructor_loop text i starts = starts"
      using False by (subst constructor_loop.simps) simp
    ultimately show ?thesis by auto
  next
    case inside: True
    show ?thesis
    proof (cases "text ! i = lineFeed")
      case True
      have T: "terminator_ends_at text (Suc i)" using inside True by (simp add: terminator_ends_at_def)
      have "constructor_loop text i starts = constructor_loop text (i + 1) (starts @ [int (i + 1)])"
        using inside True by (subst constructor_loop.simps) simp
      then show ?thesis
        using "1.IH"(1)[OF inside refl True] T
        by (subst split_first_above) auto
    next
      case notLF: False
      show ?thesis
      proof (cases "text ! i = carriageReturn")
        case CR: True
        show ?thesis
        proof (cases "i + 1 < length text \<and> text ! (i + 1) = lineFeed")
          case True
          have T1: "\<not> terminator_ends_at text (Suc i)"
            using True CR notLF by (simp add: terminator_ends_at_def)
          have T2: "terminator_ends_at text (Suc (Suc i))"
            using True by (simp add: terminator_ends_at_def)
          have "constructor_loop text i starts = constructor_loop text (i + 1 + 1) (starts @ [int (i + 1 + 1)])"
            using inside True notLF CR by (subst constructor_loop.simps) (simp add: Let_def)
          then show ?thesis
            using "1.IH"(2)[OF inside refl notLF CR, of "i + 1"] True T1 T2
            by (subst split_first_above, subst split_first_above) auto
        next
          case False
          have T: "terminator_ends_at text (Suc i)"
            using inside CR False by (auto simp: terminator_ends_at_def)
          have "constructor_loop text i starts = constructor_loop text (i + 1) (starts @ [int (i + 1)])"
            using inside False notLF CR by (subst constructor_loop.simps) (auto simp: Let_def)
          then show ?thesis
            using "1.IH"(2)[OF inside refl notLF CR, of i] False T
            by (subst split_first_above) auto
        qed
      next
        case other: False
        have T: "\<not> terminator_ends_at text (Suc i)"
          using other notLF by (simp add: terminator_ends_at_def)
        have "constructor_loop text i starts = constructor_loop text (i + 1) starts"
          using inside notLF other by (subst constructor_loop.simps) simp
        then show ?thesis
          using "1.IH"(3)[OF inside refl notLF other] T
          by (subst split_first_above) auto
      qed
    qed
  qed
qed

lemma lineStarts_set:
  "set (lineStarts (new_LineTable text)) =
     {0, int (length text)} \<union> int ` {p. terminator_ends_at text p}"
proof -
  define starts where "starts = constructor_loop text 0 [0]"
  have s: "set starts = {0} \<union> int ` {p. terminator_ends_at text p}"
    unfolding starts_def constructor_loop_set by (auto simp: terminator_ends_at_def)
  have l: "last (lineStarts (new_LineTable text)) = int (length text)"
    "lineStarts (new_LineTable text) \<noteq> []"
    using lineStarts_sorted(4)[of "text"] lineStarts_length[of "text"] by simp_all
  have "lineStarts (new_LineTable text) = starts \<or> lineStarts (new_LineTable text) = starts @ [int (length text)]"
    by (simp add: new_LineTable_def starts_def[symmetric] Let_def)
  then show ?thesis
  proof
    assume e: "lineStarts (new_LineTable text) = starts"
    then have "int (length text) \<in> set starts" using l by (metis last_in_set)
    then show ?thesis using e s by auto
  next
    assume "lineStarts (new_LineTable text) = starts @ [int (length text)]"
    then show ?thesis using s by auto
  qed
qed


lemma crlf_table:
  "lineStarts (new_LineTable (ascii ''a'' @ [carriageReturn, lineFeed] @ ascii ''b'')) = [0, 3, 4]"
  by (simp add: eval_table)

lemma crlf_position:
  "get1BasedLineAndColumn \<lparr> lineStarts = [0, 3, 4] \<rparr> 3 = Some \<lparr> line = 2, column = Some 1 \<rparr>"
  by (simp add: eval_position)

subsection \<open>The table, the split lines and the line of an offset\<close>

lemma constructor_loop_terminator_ends:
  "i \<le> length text \<Longrightarrow>
   constructor_loop text i starts = starts @ map (\<lambda>p. int (i + p)) (terminator_ends (drop i text))"
proof (induction "text" i starts rule: constructor_loop.induct)
  case (1 "text" i starts)
  show ?case
  proof (cases "i < length text")
    case False
    then show ?thesis by (subst constructor_loop.simps) simp
  next
    case inside: True
    then have d: "drop i text = text ! i # drop (Suc i) text"
      by (simp add: Cons_nth_drop_Suc)
    show ?thesis
    proof (cases "text ! i = lineFeed")
      case True
      have "constructor_loop text i starts = constructor_loop text (i + 1) (starts @ [int (i + 1)])"
        using inside True by (subst constructor_loop.simps) simp
      also have "\<dots> = (starts @ [int (i + 1)]) @ map (\<lambda>p. int (i + 1 + p)) (terminator_ends (drop (i + 1) text))"
        using "1.IH"(1)[OF inside refl True] inside by simp
      finally show ?thesis
        using True by (simp add: d lineFeed_def carriageReturn_def comp_def)
    next
      case notLF: False
      show ?thesis
      proof (cases "text ! i = carriageReturn")
        case CR: True
        show ?thesis
        proof (cases "i + 1 < length text \<and> text ! (i + 1) = lineFeed")
          case True
          then have d2: "drop (Suc i) text = lineFeed # drop (Suc (Suc i)) text"
            using Cons_nth_drop_Suc[of "Suc i" "text"] by simp
          have "constructor_loop text i starts = constructor_loop text (i + 1 + 1) (starts @ [int (i + 1 + 1)])"
            using inside True notLF CR by (subst constructor_loop.simps) (simp add: Let_def)
          also have "\<dots> = (starts @ [int (i + 1 + 1)])
                @ map (\<lambda>p. int (i + 1 + 1 + p)) (terminator_ends (drop (i + 1 + 1) text))"
            using "1.IH"(2)[OF inside refl notLF CR, of "i + 1"] True by simp
          finally show ?thesis
            using CR by (simp add: d d2 comp_def)
        next
          case False
          have "constructor_loop text i starts = constructor_loop text (i + 1) (starts @ [int (i + 1)])"
            using inside False notLF CR by (subst constructor_loop.simps) (auto simp: Let_def)
          also have "\<dots> = (starts @ [int (i + 1)]) @ map (\<lambda>p. int (i + 1 + p)) (terminator_ends (drop (i + 1) text))"
            using "1.IH"(2)[OF inside refl notLF CR, of i] False inside by simp
          finally have c: "constructor_loop text i starts =
              (starts @ [int (i + 1)]) @ map (\<lambda>p. int (i + 1 + p)) (terminator_ends (drop (i + 1) text))" .
          have e: "terminator_ends (drop i text) = 1 # map Suc (terminator_ends (drop (Suc i) text))"
          proof (cases "drop (Suc i) text")
            case Nil
            then show ?thesis using CR d by simp
          next
            case (Cons e es)
            have si: "Suc i < length text" using Cons by (cases "Suc i < length text") simp_all
            then have "e = text ! Suc i" using Cons Cons_nth_drop_Suc[of "Suc i" "text"] by simp
            then have "e \<noteq> lineFeed" using False si by simp
            then have "terminator_ends (carriageReturn # e # es) = 1 # map Suc (terminator_ends (e # es))"
              by simp
            then show ?thesis unfolding d CR Cons .
          qed
          show ?thesis unfolding c e by (simp add: comp_def)
        qed
      next
        case other: False
        have "constructor_loop text i starts = constructor_loop text (i + 1) starts"
          using inside notLF other by (subst constructor_loop.simps) simp
        also have "\<dots> = starts @ map (\<lambda>p. int (i + 1 + p)) (terminator_ends (drop (i + 1) text))"
          using "1.IH"(3)[OF inside refl notLF other] inside by simp
        finally show ?thesis
          using notLF other by (simp add: d comp_def)
      qed
    qed
  qed
qed


lemma split_lines_not_empty [simp]: "split_lines cs \<noteq> []"
proof (induction cs rule: split_lines.induct)
  case 1
  show ?case by simp
next
  case (2 c cs)
  show ?case
    by (cases cs; cases "split_lines cs") (simp_all)
qed

lemma split_lines_terminator_ends:
  "length (split_lines cs) = Suc (length (terminator_ends cs))
   \<and> split_lines cs ! 0 = takeWhile in_line cs
   \<and> (\<forall>k < length (terminator_ends cs).
         split_lines cs ! Suc k = takeWhile in_line (drop (terminator_ends cs ! k) cs))"
proof (induction cs rule: split_lines.induct)
  case 1
  show ?case by simp
next
  case (2 c cs)
  show ?case
  proof (cases "c = carriageReturn")
    case CR: True
    then have nin: "\<not> in_line c" by (simp add: in_line_def)
    show ?thesis
    proof (cases cs)
      case Nil
      then show ?thesis using CR nin by simp
    next
      case (Cons d ds)
      show ?thesis
      proof (cases "d = lineFeed")
        case True
        have IH: "length (split_lines ds) = Suc (length (terminator_ends ds))"
          "split_lines ds ! 0 = takeWhile in_line ds"
          "\<forall>k < length (terminator_ends ds).
             split_lines ds ! Suc k = takeWhile in_line (drop (terminator_ends ds ! k) ds)"
          using "2.IH"(2)[OF CR Cons True] by simp_all
        have s: "split_lines (c # cs) = [] # split_lines ds"
          "terminator_ends (c # cs) = 2 # map (\<lambda>p. p + 2) (terminator_ends ds)"
          using CR Cons True by simp_all
        have "\<forall>k < length (terminator_ends (c # cs)).
            split_lines (c # cs) ! Suc k = takeWhile in_line (drop (terminator_ends (c # cs) ! k) (c # cs))"
        proof (intro allI impI)
          fix k assume k: "k < length (terminator_ends (c # cs))"
          show "split_lines (c # cs) ! Suc k = takeWhile in_line (drop (terminator_ends (c # cs) ! k) (c # cs))"
          proof (cases k)
            case 0
            then show ?thesis using s IH(2) Cons by simp
          next
            case (Suc k')
            then have "k' < length (terminator_ends ds)" using k s by simp
            then show ?thesis using s IH(3) Cons Suc by simp
          qed
        qed
        then show ?thesis using s IH(1) nin by simp
      next
        case False
        have IH: "length (split_lines cs) = Suc (length (terminator_ends cs))"
          "split_lines cs ! 0 = takeWhile in_line cs"
          "\<forall>k < length (terminator_ends cs).
             split_lines cs ! Suc k = takeWhile in_line (drop (terminator_ends cs ! k) cs)"
          using "2.IH"(3)[OF CR Cons False] by simp_all
        have s: "split_lines (c # cs) = [] # split_lines cs"
          "terminator_ends (c # cs) = 1 # map Suc (terminator_ends cs)"
          using CR Cons False by simp_all
        have "\<forall>k < length (terminator_ends (c # cs)).
            split_lines (c # cs) ! Suc k = takeWhile in_line (drop (terminator_ends (c # cs) ! k) (c # cs))"
        proof (intro allI impI)
          fix k assume k: "k < length (terminator_ends (c # cs))"
          show "split_lines (c # cs) ! Suc k = takeWhile in_line (drop (terminator_ends (c # cs) ! k) (c # cs))"
          proof (cases k)
            case 0
            then show ?thesis using s IH(2) by simp
          next
            case (Suc k')
            then have "k' < length (terminator_ends cs)" using k s by simp
            then show ?thesis using s IH(3) Suc by simp
          qed
        qed
        then show ?thesis using s IH(1) nin by simp
      qed
    qed
  next
    case notCR: False
    show ?thesis
    proof (cases "c = lineFeed")
      case True
      then have nin: "\<not> in_line c" by (simp add: in_line_def)
      have IH: "length (split_lines cs) = Suc (length (terminator_ends cs))"
        "split_lines cs ! 0 = takeWhile in_line cs"
        "\<forall>k < length (terminator_ends cs).
           split_lines cs ! Suc k = takeWhile in_line (drop (terminator_ends cs ! k) cs)"
        using "2.IH"(4)[OF notCR True] by simp_all
      have s: "split_lines (c # cs) = [] # split_lines cs"
        "terminator_ends (c # cs) = 1 # map Suc (terminator_ends cs)"
        using notCR True by simp_all
      have "\<forall>k < length (terminator_ends (c # cs)).
          split_lines (c # cs) ! Suc k = takeWhile in_line (drop (terminator_ends (c # cs) ! k) (c # cs))"
      proof (intro allI impI)
        fix k assume k: "k < length (terminator_ends (c # cs))"
        show "split_lines (c # cs) ! Suc k = takeWhile in_line (drop (terminator_ends (c # cs) ! k) (c # cs))"
        proof (cases k)
          case 0
          then show ?thesis using s IH(2) by simp
        next
          case (Suc k')
          then have "k' < length (terminator_ends cs)" using k s by simp
          then show ?thesis using s IH(3) Suc by simp
        qed
      qed
      then show ?thesis using s IH(1) nin by simp
    next
      case False
      then have inl: "in_line c" using notCR by (simp add: in_line_def)
      have IH: "length (split_lines cs) = Suc (length (terminator_ends cs))"
        "split_lines cs ! 0 = takeWhile in_line cs"
        "\<forall>k < length (terminator_ends cs).
           split_lines cs ! Suc k = takeWhile in_line (drop (terminator_ends cs ! k) cs)"
        using "2.IH"(5)[OF notCR False] by simp_all
      obtain l ls where l: "split_lines cs = l # ls" by (cases "split_lines cs") simp_all
      have s: "split_lines (c # cs) = (c # l) # ls"
        "terminator_ends (c # cs) = map Suc (terminator_ends cs)"
        using notCR False l by simp_all
      have "\<forall>k < length (terminator_ends (c # cs)).
          split_lines (c # cs) ! Suc k = takeWhile in_line (drop (terminator_ends (c # cs) ! k) (c # cs))"
      proof (intro allI impI)
        fix k assume k: "k < length (terminator_ends (c # cs))"
        then have "k < length (terminator_ends cs)" using s by simp
        then show "split_lines (c # cs) ! Suc k = takeWhile in_line (drop (terminator_ends (c # cs) ! k) (c # cs))"
          using s IH(3) l by simp
      qed
      then show ?thesis using s IH(1,2) l inl by simp
    qed
  qed
qed


text \<open>The table and the split lines of a text describe the same lines.\<close>

lemma lineStarts_prefix:
  "\<exists>rest. lineStarts (new_LineTable text) = (0 # map int (terminator_ends text)) @ rest"
proof -
  have "constructor_loop text 0 [0] = 0 # map int (terminator_ends text)"
    using constructor_loop_terminator_ends[of 0 "text" "[0]"] by simp
  then show ?thesis by (simp add: new_LineTable_def Let_def)
qed

lemma split_lines_at_start:
  assumes "k < length (split_lines text)"
  shows "k < length (lineStarts (new_LineTable text))"
    "0 \<le> lineStarts (new_LineTable text) ! k"
    "split_lines text ! k = takeWhile in_line (drop (nat (lineStarts (new_LineTable text) ! k)) text)"
proof -
  obtain rest where r: "lineStarts (new_LineTable text) = (0 # map int (terminator_ends text)) @ rest"
    using lineStarts_prefix by blast
  note s = split_lines_terminator_ends[of "text"]
  have k: "k < Suc (length (terminator_ends text))" using assms s by simp
  then show "k < length (lineStarts (new_LineTable text))" using r by simp
  have nth: "lineStarts (new_LineTable text) ! k = (0 # map int (terminator_ends text)) ! k"
    using r k by (cases k) (simp_all add: nth_append)
  show "0 \<le> lineStarts (new_LineTable text) ! k"
    unfolding nth using k by (cases k) simp_all
  show "split_lines text ! k = takeWhile in_line (drop (nat (lineStarts (new_LineTable text) ! k)) text)"
    unfolding nth using k s by (cases k) simp_all
qed

lemma line_at_from_start:
  assumes o: "offset \<le> length text" and s: "s \<le> offset"
    and before: "s = 0 \<or> \<not> in_line (text ! (s - 1))"
    and between: "\<forall>j. s \<le> j \<and> j < offset \<longrightarrow> in_line (text ! j)"
  shows "line_at text offset = takeWhile in_line (drop s text)"
proof -
  define seg where "seg = take (offset - s) (drop s text)"
  have t: "take offset text = take s text @ seg"
    using take_add[of s "offset - s" "text"] s by (simp add: seg_def)
  have d: "drop s text = seg @ drop offset text"
    using append_take_drop_id[of "offset - s" "drop s text"] s by (simp add: seg_def)
  have seg_in: "\<forall>c \<in> set seg. in_line c"
  proof
    fix c assume "c \<in> set seg"
    then obtain j where j: "j < length seg" "c = seg ! j" by (metis in_set_conv_nth)
    then have "j < offset - s" by (simp add: seg_def)
    then have "seg ! j = text ! (s + j)" using o s by (simp add: seg_def)
    moreover have "in_line (text ! (s + j))" using between \<open>j < offset - s\<close> by simp
    ultimately show "in_line c" using j by simp
  qed
  have "takeWhile in_line (rev (take s text)) = []"
  proof (cases "s = 0")
    case True
    then show ?thesis by simp
  next
    case False
    then have "\<not> in_line (text ! (s - 1))" using before by simp
    moreover have "s \<le> length text" using o s by simp
    then have "take (Suc (s - 1)) text = take (s - 1) text @ [text ! (s - 1)]"
      using False by (intro take_Suc_conv_app_nth) simp
    then have "rev (take s text) = text ! (s - 1) # rev (take (s - 1) text)"
      using False by simp
    ultimately show ?thesis by simp
  qed
  moreover have "takeWhile in_line (rev seg @ rev (take s text))
      = rev seg @ takeWhile in_line (rev (take s text))"
    using seg_in by (intro takeWhile_append2) simp
  ultimately have "takeWhile in_line (rev (take offset text)) = rev seg"
    unfolding t by simp
  moreover have "takeWhile in_line (seg @ drop offset text) = seg @ takeWhile in_line (drop offset text)"
    using seg_in by (intro takeWhile_append2) simp
  then have "takeWhile in_line (drop s text) = seg @ takeWhile in_line (drop offset text)"
    using d by simp
  ultimately show ?thesis by (simp add: line_at_def)
qed


lemma lineStarts_cases:
  "lineStarts (new_LineTable text) = 0 # map int (terminator_ends text)
   \<or> lineStarts (new_LineTable text) = (0 # map int (terminator_ends text)) @ [int (length text)]"
proof -
  have "constructor_loop text 0 [0] = 0 # map int (terminator_ends text)"
    using constructor_loop_terminator_ends[of 0 "text" "[0]"] by simp
  then show ?thesis by (simp add: new_LineTable_def Let_def)
qed

lemma terminator_after:
  assumes j: "j < offset" and o: "offset < length text" and inl: "in_line (text ! offset)"
    and t: "\<not> in_line (text ! j)"
  shows "\<exists>p. j < p \<and> p \<le> offset \<and> terminator_ends_at text p"
proof (cases "text ! j = lineFeed")
  case True
  then have "terminator_ends_at text (j + 1)" using j o by (simp add: terminator_ends_at_def)
  then show ?thesis using j by (intro exI[of _ "j + 1"]) simp
next
  case False
  then have CR: "text ! j = carriageReturn" using t by (simp add: in_line_def)
  show ?thesis
  proof (cases "j + 1 < length text \<and> text ! (j + 1) = lineFeed")
    case True
    then have "\<not> in_line (text ! (j + 1))" by (simp add: in_line_def)
    then have "j + 1 \<noteq> offset" using inl by auto
    then have "j + 2 \<le> offset" using j by simp
    moreover have "terminator_ends_at text (j + 2)"
      using True by (simp add: terminator_ends_at_def)
    ultimately show ?thesis by (intro exI[of _ "j + 2"]) simp
  next
    case False
    then have "terminator_ends_at text (j + 1)"
      using CR j o by (auto simp: terminator_ends_at_def)
    then show ?thesis using j by (intro exI[of _ "j + 1"]) simp
  qed
qed

text \<open>
  The position computed for an offset inside a line, and the line that the comment test
  reads for it.
\<close>

lemma position_of_offset:
  assumes len: "length text < 2 ^ 31" and o: "offset < length text" and inl: "in_line (text ! offset)"
  shows "\<exists>k start. getLineFromOffset (new_LineTable text) (int offset) = Some (int k)
           \<and> k < length (split_lines text)
           \<and> getStartOfLine (new_LineTable text) (int k) = Some (int start)
           \<and> start \<le> offset
           \<and> (start = 0 \<or> \<not> in_line (text ! (start - 1)))
           \<and> (\<forall>j. start \<le> j \<and> j < offset \<longrightarrow> in_line (text ! j))
           \<and> split_lines text ! k = line_at text offset
           \<and> get1BasedLineAndColumn (new_LineTable text) (int offset)
               = Some \<lparr> line = int k + 1, column = Some (int (offset - start) + 1) \<rparr>
           \<and> tested_line (split_lines text) \<lparr> line = int k + 1, column = Some (int (offset - start) + 1) \<rparr>
               = line_at text offset"
proof -
  define starts where "starts = lineStarts (new_LineTable text)"
  obtain k' where k': "getLineFromOffset (new_LineTable text) (int offset) = Some k'"
    "0 \<le> k'" "k' < int (length starts)" "starts ! nat k' \<le> int offset"
    "\<forall>j < length starts. starts ! j \<le> int offset \<longrightarrow> int j \<le> k'"
    using getLineFromOffset_range[OF len, of "int offset"] unfolding starts_def by auto
  define k where "k = nat k'"
  have kk: "k' = int k" "k < length starts" using k'(2,3) by (simp_all add: k_def)
  have srt: "sorted starts" using lineStarts_sorted(2)[of "text"] by (simp add: starts_def)
  have mem: "starts ! k \<in> set starts" using kk by simp
  have sk: "starts ! k \<le> int offset" using k'(4) by (simp add: k_def)
  have set: "set starts = {0, int (length text)} \<union> int ` {p. terminator_ends_at text p}"
    unfolding starts_def by (rule lineStarts_set)
  have "starts ! k \<noteq> int (length text)" using sk o by simp
  then have "starts ! k = 0 \<or> (\<exists>p. starts ! k = int p \<and> terminator_ends_at text p)"
    using mem unfolding set by auto
  then have "\<exists>start. starts ! k = int start \<and> (start = 0 \<or> terminator_ends_at text start)"
  proof
    assume "starts ! k = 0"
    then show ?thesis by (intro exI[of _ 0]) simp
  next
    assume "\<exists>p. starts ! k = int p \<and> terminator_ends_at text p"
    then show ?thesis by blast
  qed
  then obtain start where start: "starts ! k = int start" "start = 0 \<or> terminator_ends_at text start"
    by blast
  have so: "start \<le> offset" using sk start(1) by simp
  have before: "start = 0 \<or> \<not> in_line (text ! (start - 1))"
    using start(2) by (auto simp: terminator_ends_at_def in_line_def)
  have between: "\<forall>j. start \<le> j \<and> j < offset \<longrightarrow> in_line (text ! j)"
  proof (intro allI impI, rule ccontr)
    fix j assume j: "start \<le> j \<and> j < offset" and n: "\<not> in_line (text ! j)"
    obtain p where p: "j < p" "p \<le> offset" "terminator_ends_at text p"
      using terminator_after[OF _ o inl n] j by blast
    then have "int p \<in> set starts" unfolding set by blast
    then obtain j' where j': "j' < length starts" "starts ! j' = int p" by (metis in_set_conv_nth)
    then have "int j' \<le> k'" using k'(5) p(2) by simp
    then have "j' \<le> k" by (simp add: k_def)
    then have "starts ! j' \<le> starts ! k" using srt kk(2) by (simp add: sorted_nth_mono)
    then show False using j' start(1) p(1) j by simp
  qed
  have klines: "k < length (split_lines text)"
  proof (rule ccontr)
    assume "\<not> k < length (split_lines text)"
    then have ge: "Suc (length (terminator_ends text)) \<le> k"
      using split_lines_terminator_ends[of "text"] by simp
    from lineStarts_cases[of "text"] show False
    proof
      assume "lineStarts (new_LineTable text) = 0 # map int (terminator_ends text)"
      then show False using kk(2) ge by (simp add: starts_def)
    next
      assume e: "lineStarts (new_LineTable text) = (0 # map int (terminator_ends text)) @ [int (length text)]"
      then have "k = Suc (length (terminator_ends text))" using kk(2) ge by (simp add: starts_def)
      then have "starts ! k = int (length text)"
        unfolding starts_def e
        using nth_append_length[of "0 # map int (terminator_ends text)" "int (length text)" "[]"]
        by simp
      then show False using sk o by simp
    qed
  qed
  have line: "split_lines text ! k = takeWhile in_line (drop start text)"
    using split_lines_at_start(3)[OF klines] start(1) by (simp add: starts_def)
  have la: "line_at text offset = takeWhile in_line (drop start text)"
    using o by (intro line_at_from_start[OF _ so before between]) simp
  have g: "getStartOfLine (new_LineTable text) (int k) = Some (int start)"
    using kk(2) start(1) by (simp add: getStartOfLine_def array_get_def starts_def)
  have col: "getColumnFromLineAndOffset (new_LineTable text) (int k) (int offset) = Some (int (offset - start))"
    using kk(2) start(1) so by (simp add: getColumnFromLineAndOffset_def array_get_def starts_def)
  have pos: "get1BasedLineAndColumn (new_LineTable text) (int offset)
               = Some \<lparr> line = int k + 1, column = Some (int (offset - start) + 1) \<rparr>"
    using k'(1) kk(1) col by (simp add: get1BasedLineAndColumn_def)
  have tl: "tested_line (split_lines text) \<lparr> line = int k + 1, column = Some (int (offset - start) + 1) \<rparr>
               = line_at text offset"
    using klines line la by (simp add: tested_line_def array_get_def)
  have line': "split_lines text ! k = line_at text offset" using line la by simp
  have g1: "getLineFromOffset (new_LineTable text) (int offset) = Some (int k)"
    using k'(1) kk(1) by simp
  show ?thesis
    by (intro exI[of _ k] exI[of _ start] conjI g1 klines g so before between line' pos tl)
qed


subsection \<open>Tokens on comment lines\<close>

lemma match_in_line:
  assumes "wordRegex_exec s lastIndex = Some (matchIndex, replacedWord)"
  shows "matchIndex < length s" "in_line (s ! matchIndex)"
proof -
  show "matchIndex < length s" using wordRegex_exec_Some(2)[OF assms] .
  have "isWordStart (s ! matchIndex)" using wordRegex_exec_Some(6)[OF assms] .
  then show "in_line (s ! matchIndex)"
    by (auto simp: isWordStart_def in_line_def lineFeed_def carriageReturn_def)
qed

lemma loop_body_comment:
  assumes "get1BasedLineAndColumn lineTable (int matchIndex) = Some lc"
    "commentRegex_test (tested_line lines lc)"
  shows "loop_body env opts path uri text lines lineTable matchIndex replacedWord st = (None, st)"
  using assms by (simp add: loop_body_def)

text \<open>
  What the comment pattern accepts: some white space, then \<open>*\<close>, \<open>/*\<close> or \<open>//\<close>, then
  anything.
\<close>

lemma commentRegex_test_iff:
  "commentRegex_test s \<longleftrightarrow>
     (\<exists>ws rest. s = ws @ rest \<and> (\<forall>c \<in> set ws. isWhiteSpace c)
        \<and> (take 1 rest = ascii ''*'' \<or> take 2 rest = ascii ''/*'' \<or> take 2 rest = ascii ''//''))"
proof
  assume "commentRegex_test s"
  then have "take 1 (dropWhile isWhiteSpace s) = ascii ''*''
      \<or> take 2 (dropWhile isWhiteSpace s) = ascii ''/*'' \<or> take 2 (dropWhile isWhiteSpace s) = ascii ''//''"
    by (simp add: commentRegex_test_def Let_def)
  moreover have "s = takeWhile isWhiteSpace s @ dropWhile isWhiteSpace s" by simp
  moreover have "\<forall>c \<in> set (takeWhile isWhiteSpace s). isWhiteSpace c"
    by (auto dest: set_takeWhileD)
  ultimately show "\<exists>ws rest. s = ws @ rest \<and> (\<forall>c \<in> set ws. isWhiteSpace c)
        \<and> (take 1 rest = ascii ''*'' \<or> take 2 rest = ascii ''/*'' \<or> take 2 rest = ascii ''//'')"
    by blast
next
  assume "\<exists>ws rest. s = ws @ rest \<and> (\<forall>c \<in> set ws. isWhiteSpace c)
        \<and> (take 1 rest = ascii ''*'' \<or> take 2 rest = ascii ''/*'' \<or> take 2 rest = ascii ''//'')"
  then obtain ws rest where a: "s = ws @ rest" "\<forall>c \<in> set ws. isWhiteSpace c"
    "take 1 rest = ascii ''*'' \<or> take 2 rest = ascii ''/*'' \<or> take 2 rest = ascii ''//''"
    by blast
  then obtain r rs where r: "rest = r # rs" "r = 42 \<or> r = 47"
    by (cases rest) (auto simp: ascii_def)
  then have "\<not> isWhiteSpace r" by (auto simp: isWhiteSpace_def)
  then have "dropWhile isWhiteSpace s = rest"
    using a(1,2) r(1) by (simp add: dropWhile_append2)
  then show "commentRegex_test s" using a(3) by (simp add: commentRegex_test_def Let_def)
qed


lemma comment_lengths: "length (ascii ''// foo bar'') = 10"
  by (simp add: ascii_def)

lemma comment_matches:
  "wordRegex_exec (ascii ''// foo bar'') 0 = Some (3, ascii ''foo'')"
  "wordRegex_exec (ascii ''// foo bar'') 6 = Some (7, ascii ''bar'')"
  "wordRegex_exec (ascii ''// foo bar'') 10 = None"
  by (simp_all add: eval_regex)

lemma comment_table: "new_LineTable (ascii ''// foo bar'') = \<lparr> lineStarts = [0, 10] \<rparr>"
  by (simp add: eval_table)

lemma comment_positions:
  "get1BasedLineAndColumn \<lparr> lineStarts = [0, 10] \<rparr> (int 3) = Some \<lparr> line = 1, column = Some 4 \<rparr>"
  "get1BasedLineAndColumn \<lparr> lineStarts = [0, 10] \<rparr> (int 7) = Some \<lparr> line = 1, column = Some 8 \<rparr>"
  by (simp_all add: eval_position)

lemma comment_lines: "split_lines (ascii ''// foo bar'') = [ascii ''// foo bar'']"
  by (simp add: ascii_def lineFeed_def carriageReturn_def)

lemma comment_is_comment:
  "commentRegex_test (tested_line [ascii ''// foo bar''] \<lparr> line = 1, column = c \<rparr>)"
  by (simp add: eval_comment)

lemma comment_line_at: "line_at (ascii ''// foo bar'') 3 = ascii ''// foo bar''"
  by (simp add: line_at_def ascii_def in_line_def lineFeed_def carriageReturn_def)

lemma comment_text_run:
  assumes "readFileSync env path = ascii ''// foo bar''"
  shows "process_file env opts path st =
           (None, send (DidOpenTextDocumentNotification
                          (TextDocumentItem (pathToFileURL env (realpathSync env path)) (ascii ''codeql'') 1
                             (ascii ''// foo bar'')))
                    (st\<lparr> versionNumber := 1 \<rparr>))"
  unfolding process_file_def assms Let_def comment_table comment_lines
  apply (subst token_loop.simps)
  apply (simp add: comment_matches loop_body_comment[OF comment_positions(1) comment_is_comment] foo_bar_lengths)
  apply (subst token_loop.simps)
  apply (simp add: comment_matches loop_body_comment[OF comment_positions(2) comment_is_comment] foo_bar_lengths)
  apply (subst token_loop.simps)
  apply (simp add: comment_matches)
  done

section \<open>The claims\<close>

text \<open>
  C1: among the messages sent for one file, message 0 is the \<open>didOpen\<close> notification with
  the text read from the file, and the messages \<open>3k + 1\<close>, \<open>3k + 2\<close>, \<open>3k + 3\<close> are the
  probe edit, the request and the revert of the \<open>k\<close>-th measured token. Whenever a revert
  was sent, in either mode and whatever the server replied, its text is the text of the
  \<open>didOpen\<close> notification, and the next probe, if any, comes directly after it. Every
  reported measurement has its revert among the messages.
\<close>

theorem revert_restores_open_text:
  assumes "process_file env opts path st = (out, st')"
  shows "sent st' = sent st @ new_messages st st'
     \<and> new_messages st st' ! 0 =
          DidOpenTextDocumentNotification
            (TextDocumentItem (pathToFileURL env (realpathSync env path)) (ascii ''codeql'') 1
               (readFileSync env path))
     \<and> (\<forall>k. 3 * k + 3 < length (new_messages st st') \<longrightarrow>
           (\<exists>p. new_messages st st' ! (3 * k + 1) =
                  DidChangeTextDocumentNotification
                    (VersionedTextDocumentIdentifier (pathToFileURL env (realpathSync env path))
                       (2 * int k + 2)) p)
         \<and> is_request (new_messages st st' ! (3 * k + 2))
         \<and> new_messages st st' ! (3 * k + 3) =
             DidChangeTextDocumentNotification
               (VersionedTextDocumentIdentifier (pathToFileURL env (realpathSync env path))
                  (2 * int k + 3))
               (readFileSync env path))
     \<and> 3 * length (new_measurements st st') < length (new_messages st st')"
proof (intro conjI allI impI)
  show "sent st' = sent st @ new_messages st st'" by (rule opened_first(2)[OF assms])
  show "new_messages st st' ! 0 =
          DidOpenTextDocumentNotification
            (TextDocumentItem (pathToFileURL env (realpathSync env path)) (ascii ''codeql'') 1
               (readFileSync env path))"
    by (rule opened_first(1)[OF assms])
  show "3 * length (new_measurements st st') < length (new_messages st st')"
    by (rule measurements_bound[OF assms])
next
  fix k assume k: "3 * k + 3 < length (new_messages st st')"
  then have k': "3 * k + 1 < length (new_messages st st')" "3 * k + 2 < length (new_messages st st')"
    by simp_all
  show "\<exists>p. new_messages st st' ! (3 * k + 1) =
                  DidChangeTextDocumentNotification
                    (VersionedTextDocumentIdentifier (pathToFileURL env (realpathSync env path))
                       (2 * int k + 2)) p"
    using token_messages(1)[OF assms k'(1)] by (auto split: prod.splits)
  show "is_request (new_messages st st' ! (3 * k + 2))"
    using token_messages(2)[OF assms k'(2)] by (auto split: prod.splits)
  show "new_messages st st' ! (3 * k + 3) =
             DidChangeTextDocumentNotification
               (VersionedTextDocumentIdentifier (pathToFileURL env (realpathSync env path))
                  (2 * int k + 3))
               (readFileSync env path)"
    using token_messages(3)[OF assms k] by simp
qed

theorem revert_restores_open_text_witness:
  "process_file (example_env (ascii ''foo bar'') (Result Null)) completion_options (ascii ''a.ql'') fresh
     = foo_bar_run
   \<and> 3 * 1 + 3 < length (new_messages fresh (snd foo_bar_run))
   \<and> new_messages fresh (snd foo_bar_run) ! 0 =
       DidOpenTextDocumentNotification
         (TextDocumentItem (ascii ''file://'' @ ascii ''a.ql'') (ascii ''codeql'') 1 (ascii ''foo bar''))
   \<and> is_request (new_messages fresh (snd foo_bar_run) ! (3 * 1 + 2))
   \<and> new_messages fresh (snd foo_bar_run) ! (3 * 1 + 3) =
       DidChangeTextDocumentNotification
         (VersionedTextDocumentIdentifier (ascii ''file://'' @ ascii ''a.ql'') 5) (ascii ''foo bar'')
   \<and> 3 * length (new_measurements fresh (snd foo_bar_run)) < length (new_messages fresh (snd foo_bar_run))"
proof -
  have run: "process_file (example_env (ascii ''foo bar'') (Result Null)) completion_options (ascii ''a.ql'') fresh
     = (fst foo_bar_run, snd foo_bar_run)"
    by (simp add: foo_bar_run_def)
  have len: "3 * 1 + 3 < length (new_messages fresh (snd foo_bar_run))"
    unfolding foo_bar_run_def foo_bar_completion_run by (simp add: new_messages_def fresh_def)
  note all = revert_restores_open_text[OF run]
  note token = all[THEN conjunct2, THEN conjunct2, THEN conjunct1, THEN spec, of 1, THEN mp, OF len]
  show ?thesis
    using all token len
    by (simp add: foo_bar_run_def example_env_def)
qed

text \<open>
  C2: the document versions announced for one file, in the order sent, are 1, 2, 3, ...:
  strictly increasing, starting with 1 in the \<open>didOpen\<close> notification, and the counter is
  always the last one sent. The probe edit of the \<open>k\<close>-th measured token (counted from 0)
  carries version \<open>2k + 2\<close> and its revert \<open>2k + 3\<close>, two more than the revert before
  it. When the loop has run to its end the counter is 1 plus twice the number of measured
  tokens, which is the number of measurements reported; the tokens skipped as comments are
  not among them, and the pass of the loop body for such a token leaves the counter as it
  was.
\<close>

theorem version_counter:
  assumes "process_file env opts path st = (out, st')"
  shows "versions (new_messages st st') = map (\<lambda>i. 1 + int i) [0..<length (versions (new_messages st st'))]
     \<and> sorted_wrt (<) (versions (new_messages st st'))
     \<and> versionNumber st' = int (length (versions (new_messages st st')))
     \<and> (\<exists>u l t. new_messages st st' ! 0 = DidOpenTextDocumentNotification (TextDocumentItem u l 1 t))
     \<and> (\<forall>k. 3 * k + 3 < length (new_messages st st') \<longrightarrow>
           (\<exists>u p. new_messages st st' ! (3 * k + 1) =
                  DidChangeTextDocumentNotification (VersionedTextDocumentIdentifier u (2 * int k + 2)) p)
         \<and> (\<exists>u t. new_messages st st' ! (3 * k + 3) =
                  DidChangeTextDocumentNotification (VersionedTextDocumentIdentifier u (2 * int k + 3)) t))
     \<and> (out = None \<longrightarrow>
           versionNumber st' = 1 + 2 * int (length (measured_tokens (readFileSync env path)))
         \<and> length (new_measurements st st') = length (measured_tokens (readFileSync env path)))
     \<and> (get1BasedLineAndColumn lineTable (int matchIndex) = Some lc
          \<and> commentRegex_test (tested_line lines lc) \<longrightarrow>
           versionNumber (snd (loop_body env opts path uri text lines lineTable matchIndex replacedWord st0))
             = versionNumber st0)"
proof -
  have skipped: "get1BasedLineAndColumn lineTable (int matchIndex) = Some lc
          \<and> commentRegex_test (tested_line lines lc) \<longrightarrow>
           versionNumber (snd (loop_body env opts path uri text lines lineTable matchIndex replacedWord st0))
             = versionNumber st0"
    by (simp add: loop_body_comment)
  obtain n where t: "versions (new_messages st st') = map (\<lambda>i. 1 + int i) [0..<length (versions (new_messages st st'))]"
    "versionNumber st' = int (length (versions (new_messages st st')))"
    "out = None \<longrightarrow> n = 3 * length (measured_tokens (readFileSync env path))
           \<and> length (new_measurements st st') = length (measured_tokens (readFileSync env path))
           \<and> versionNumber st' = 1 + 2 * int (length (measured_tokens (readFileSync env path)))"
    using process_file_trace[OF assms] by blast
  have s: "sorted_wrt (<) (versions (new_messages st st'))"
    using strictly_increasing_from_1[of "length (versions (new_messages st st'))"] t(1) by simp
  have every: "\<forall>k. 3 * k + 3 < length (new_messages st st') \<longrightarrow>
           (\<exists>u p. new_messages st st' ! (3 * k + 1) =
                  DidChangeTextDocumentNotification (VersionedTextDocumentIdentifier u (2 * int k + 2)) p)
         \<and> (\<exists>u t. new_messages st st' ! (3 * k + 3) =
                  DidChangeTextDocumentNotification (VersionedTextDocumentIdentifier u (2 * int k + 3)) t)"
  proof (intro allI impI conjI)
    fix k assume k: "3 * k + 3 < length (new_messages st st')"
    then have k': "3 * k + 1 < length (new_messages st st')" by simp
    show "\<exists>u p. new_messages st st' ! (3 * k + 1) =
                  DidChangeTextDocumentNotification (VersionedTextDocumentIdentifier u (2 * int k + 2)) p"
      using token_messages(1)[OF assms k'] by (auto split: prod.splits)
    show "\<exists>u t. new_messages st st' ! (3 * k + 3) =
                  DidChangeTextDocumentNotification (VersionedTextDocumentIdentifier u (2 * int k + 3)) t"
      using token_messages(3)[OF assms k] by auto
  qed
  show ?thesis using t s every opened_first(1)[OF assms] skipped by auto
qed

theorem version_counter_witness:
  "process_file (example_env (ascii ''foo bar'') (Result Null)) completion_options (ascii ''a.ql'') fresh
     = (fst foo_bar_run, snd foo_bar_run)
   \<and> versions (new_messages fresh (snd foo_bar_run)) = [1, 2, 3, 4, 5]
   \<and> sorted_wrt (<) (versions (new_messages fresh (snd foo_bar_run)))
   \<and> versionNumber (snd foo_bar_run) = 5
   \<and> 3 * 1 + 3 < length (new_messages fresh (snd foo_bar_run))
   \<and> (\<exists>u p. new_messages fresh (snd foo_bar_run) ! (3 * 1 + 1) =
          DidChangeTextDocumentNotification (VersionedTextDocumentIdentifier u 4) p)
   \<and> (\<exists>u t. new_messages fresh (snd foo_bar_run) ! (3 * 1 + 3) =
          DidChangeTextDocumentNotification (VersionedTextDocumentIdentifier u 5) t)
   \<and> fst foo_bar_run = None
   \<and> length (measured_tokens (ascii ''foo bar'')) = 2
   \<and> length (new_measurements fresh (snd foo_bar_run)) = 2
   \<and> get1BasedLineAndColumn \<lparr> lineStarts = [0, 10] \<rparr> (int 3) = Some \<lparr> line = 1, column = Some 4 \<rparr>
   \<and> commentRegex_test (tested_line [ascii ''// foo bar''] \<lparr> line = 1, column = Some 4 \<rparr>)
   \<and> versionNumber (snd (loop_body (example_env (ascii ''foo bar'') (Result Null)) completion_options
          (ascii ''a.ql'') (ascii ''u'') (ascii ''// foo bar'') [ascii ''// foo bar'']
          \<lparr> lineStarts = [0, 10] \<rparr> 3 (ascii ''foo'') fresh)) = versionNumber fresh"
proof -
  note all = version_counter[OF foo_bar_run_process,
      of "\<lparr> lineStarts = [0, 10] \<rparr>" 3 "\<lparr> line = 1, column = Some 4 \<rparr>" "[ascii ''// foo bar'']"
         "ascii ''u''" "ascii ''// foo bar''" "ascii ''foo''" fresh]
  have c: "get1BasedLineAndColumn \<lparr> lineStarts = [0, 10] \<rparr> (int 3) = Some \<lparr> line = 1, column = Some 4 \<rparr>
      \<and> commentRegex_test (tested_line [ascii ''// foo bar''] \<lparr> line = 1, column = Some 4 \<rparr>)"
    using comment_positions(1) comment_is_comment by simp
  note skip = all[THEN conjunct2, THEN conjunct2, THEN conjunct2, THEN conjunct2, THEN conjunct2,
      THEN conjunct2, THEN mp, OF c]
  have len: "3 * 1 + 3 < length (new_messages fresh (snd foo_bar_run))"
    and out: "fst foo_bar_run = None"
    and vs: "versions (new_messages fresh (snd foo_bar_run)) = [1, 2, 3, 4, 5]"
    by (simp_all add: foo_bar_run_value new_messages_def fresh_def)
  note token = all[THEN conjunct2, THEN conjunct2, THEN conjunct2, THEN conjunct2, THEN conjunct1,
      THEN spec, of 1, THEN mp, OF len]
  note ended = all[THEN conjunct2, THEN conjunct2, THEN conjunct2, THEN conjunct2, THEN conjunct2,
      THEN conjunct1, THEN mp, OF out]
  show ?thesis
    using all token ended len out vs foo_bar_run_process c skip
    by (simp add: example_env_def foo_bar_measured)
qed

text \<open>
  C3: the probe edit of the \<open>k\<close>-th measured token, whenever it is sent, is a \<open>didChange\<close>
  notification with one full text. The token \<open>replacedWord\<close> is the non-empty piece of the
  file's text from \<open>matchIndex\<close> on. In jump-to-definition mode the probe text is the
  file's text with one space inserted right after the token; in completion mode it is the
  file's text without the token's characters. For the text \<open>foo bar\<close> in completion mode
  the tokens at offsets 0 and 4 are measured, the probe for \<open>bar\<close> sends \<open>foo \<close>, and
  its revert sends \<open>foo bar\<close> again.
\<close>

theorem probe_text:
  "(process_file env opts path st = (out, st') \<longrightarrow>
      (\<forall>k. 3 * k + 1 < length (new_messages st st') \<longrightarrow>
         k < length (measured_tokens (readFileSync env path))
       \<and> (case measured_tokens (readFileSync env path) ! k of (matchIndex, replacedWord, lc) \<Rightarrow>
            replacedWord \<noteq> []
          \<and> matchIndex + length replacedWord \<le> length (readFileSync env path)
          \<and> replacedWord = take (length replacedWord) (drop matchIndex (readFileSync env path))
          \<and> new_messages st st' ! (3 * k + 1) =
              DidChangeTextDocumentNotification
                (VersionedTextDocumentIdentifier (pathToFileURL env (realpathSync env path))
                   (2 * int k + 2))
                (if jumpToDef opts
                 then take (matchIndex + length replacedWord) (readFileSync env path) @ ascii '' ''
                      @ drop (matchIndex + length replacedWord) (readFileSync env path)
                 else take matchIndex (readFileSync env path)
                      @ drop (matchIndex + length replacedWord) (readFileSync env path)))))
   \<and> map (\<lambda>(matchIndex, replacedWord, lc). (matchIndex, replacedWord))
         (measured_tokens (ascii ''foo bar'')) = [(0, ascii ''foo''), (4, ascii ''bar'')]
   \<and> new_messages fresh (snd foo_bar_run) ! 4 =
       DidChangeTextDocumentNotification
         (VersionedTextDocumentIdentifier (ascii ''file://'' @ ascii ''a.ql'') 4) (ascii ''foo '')
   \<and> new_messages fresh (snd foo_bar_run) ! 6 =
       DidChangeTextDocumentNotification
         (VersionedTextDocumentIdentifier (ascii ''file://'' @ ascii ''a.ql'') 5) (ascii ''foo bar'')"
proof (intro conjI impI allI)
  fix k
  assume run: "process_file env opts path st = (out, st')"
    and k: "3 * k + 1 < length (new_messages st st')"
  note m = token_messages(1)[OF run k]
  show kM: "k < length (measured_tokens (readFileSync env path))" using m by simp
  obtain matchIndex replacedWord lc where
    tok: "measured_tokens (readFileSync env path) ! k = (matchIndex, replacedWord, lc)"
    by (cases "measured_tokens (readFileSync env path) ! k")
  note w = measured_tokens_member(1-3)[OF kM tok]
  have "replacedText (jumpToDef opts) (readFileSync env path) matchIndex (matchIndex + length replacedWord) =
          (if jumpToDef opts
           then take (matchIndex + length replacedWord) (readFileSync env path) @ ascii '' ''
                @ drop (matchIndex + length replacedWord) (readFileSync env path)
           else take matchIndex (readFileSync env path)
                @ drop (matchIndex + length replacedWord) (readFileSync env path))"
    using w(2) by (intro replacedText_take_drop) simp_all
  then show "case measured_tokens (readFileSync env path) ! k of (matchIndex, replacedWord, lc) \<Rightarrow>
            replacedWord \<noteq> []
          \<and> matchIndex + length replacedWord \<le> length (readFileSync env path)
          \<and> replacedWord = take (length replacedWord) (drop matchIndex (readFileSync env path))
          \<and> new_messages st st' ! (3 * k + 1) =
              DidChangeTextDocumentNotification
                (VersionedTextDocumentIdentifier (pathToFileURL env (realpathSync env path))
                   (2 * int k + 2))
                (if jumpToDef opts
                 then take (matchIndex + length replacedWord) (readFileSync env path) @ ascii '' ''
                      @ drop (matchIndex + length replacedWord) (readFileSync env path)
                 else take matchIndex (readFileSync env path)
                      @ drop (matchIndex + length replacedWord) (readFileSync env path))"
    using m w unfolding tok by simp
next
  show "map (\<lambda>(matchIndex, replacedWord, lc). (matchIndex, replacedWord))
         (measured_tokens (ascii ''foo bar'')) = [(0, ascii ''foo''), (4, ascii ''bar'')]"
    by (simp add: foo_bar_measured)
  show "new_messages fresh (snd foo_bar_run) ! 4 =
       DidChangeTextDocumentNotification
         (VersionedTextDocumentIdentifier (ascii ''file://'' @ ascii ''a.ql'') 4) (ascii ''foo '')"
    by (simp add: foo_bar_run_value new_messages_def fresh_def)
  show "new_messages fresh (snd foo_bar_run) ! 6 =
       DidChangeTextDocumentNotification
         (VersionedTextDocumentIdentifier (ascii ''file://'' @ ascii ''a.ql'') 5) (ascii ''foo bar'')"
    by (simp add: foo_bar_run_value new_messages_def fresh_def)
qed

theorem probe_text_witness:
  "process_file (example_env (ascii ''foo bar'') (Result Null)) completion_options (ascii ''a.ql'') fresh
     = (fst foo_bar_run, snd foo_bar_run)
   \<and> 3 * 1 + 1 < length (new_messages fresh (snd foo_bar_run))
   \<and> 1 < length (measured_tokens (ascii ''foo bar''))
   \<and> measured_tokens (ascii ''foo bar'') ! 1 = (4, ascii ''bar'', \<lparr> line = 1, column = Some 5 \<rparr>)
   \<and> ascii ''bar'' = take (length (ascii ''bar'')) (drop 4 (ascii ''foo bar''))
   \<and> new_messages fresh (snd foo_bar_run) ! (3 * 1 + 1) =
       DidChangeTextDocumentNotification
         (VersionedTextDocumentIdentifier (ascii ''file://'' @ ascii ''a.ql'') (2 * int 1 + 2))
         (take 4 (ascii ''foo bar'') @ drop (4 + length (ascii ''bar'')) (ascii ''foo bar''))
   \<and> take 4 (ascii ''foo bar'') @ drop (4 + length (ascii ''bar'')) (ascii ''foo bar'') = ascii ''foo ''"
proof -
  have len: "3 * 1 + 1 < length (new_messages fresh (snd foo_bar_run))"
    by (simp add: foo_bar_run_value new_messages_def fresh_def)
  note token = probe_text[of "example_env (ascii ''foo bar'') (Result Null)" completion_options
      "ascii ''a.ql''" fresh "fst foo_bar_run" "snd foo_bar_run",
      THEN conjunct1, THEN mp, OF foo_bar_run_process, THEN spec, of 1, THEN mp, OF len]
  have e: "readFileSync (example_env (ascii ''foo bar'') (Result Null)) (ascii ''a.ql'') = ascii ''foo bar''"
    "pathToFileURL (example_env (ascii ''foo bar'') (Result Null))
       (realpathSync (example_env (ascii ''foo bar'') (Result Null)) (ascii ''a.ql'')) = ascii ''file://'' @ ascii ''a.ql''"
    "jumpToDef completion_options = False"
    by (simp_all add: example_env_def completion_options_def)
  have tok: "measured_tokens (ascii ''foo bar'') ! 1 = (4, ascii ''bar'', \<lparr> line = 1, column = Some 5 \<rparr>)"
    by (simp add: foo_bar_measured)
  have probe: "take 4 (ascii ''foo bar'') @ drop (4 + length (ascii ''bar'')) (ascii ''foo bar'') = ascii ''foo ''"
    by (simp add: ascii_def)
  show ?thesis
    using token[unfolded e tok] len foo_bar_run_process tok probe by simp
qed

text \<open>
  C4: a token on a line whose first characters after any white space are \<open>*\<close>, \<open>/*\<close> or
  \<open>//\<close> goes through the loop body without any effect: the state is as before (nothing
  sent, the version counter unchanged, nothing reported) and the loop goes on. It is not
  among the measured tokens, whose messages are all that is sent after \<open>didOpen\<close>. For a
  file with the text \<open>// foo bar\<close>, in either mode and with any server, only the
  \<open>didOpen\<close> notification is sent and no measurement is reported.
\<close>

theorem comment_tokens_skipped:
  "(length text < 2 ^ 31 \<and> wordRegex_exec text lastIndex = Some (matchIndex, replacedWord)
      \<and> commentRegex_test (line_at text matchIndex) \<longrightarrow>
        loop_body env opts path uri text (split_lines text) (new_LineTable text) matchIndex replacedWord st
          = (None, st)
      \<and> (\<forall>lc. (matchIndex, replacedWord, lc) \<notin> set (measured_tokens text)))
   \<and> (commentRegex_test s \<longleftrightarrow>
        (\<exists>ws rest. s = ws @ rest \<and> (\<forall>c \<in> set ws. isWhiteSpace c)
           \<and> (take 1 rest = ascii ''*'' \<or> take 2 rest = ascii ''/*'' \<or> take 2 rest = ascii ''//'')))
   \<and> (readFileSync env' path' = ascii ''// foo bar'' \<longrightarrow>
        fst (process_file env' opts' path' st0) = None
      \<and> new_measurements st0 (snd (process_file env' opts' path' st0)) = []
      \<and> new_messages st0 (snd (process_file env' opts' path' st0)) =
          [DidOpenTextDocumentNotification
             (TextDocumentItem (pathToFileURL env' (realpathSync env' path')) (ascii ''codeql'') 1
                (ascii ''// foo bar''))]
      \<and> versionNumber (snd (process_file env' opts' path' st0)) = 1)"
proof (intro conjI impI allI)
  assume a: "length text < 2 ^ 31 \<and> wordRegex_exec text lastIndex = Some (matchIndex, replacedWord)
      \<and> commentRegex_test (line_at text matchIndex)"
  then have m: "matchIndex < length text" "in_line (text ! matchIndex)"
    using match_in_line by blast+
  obtain k start where p: "get1BasedLineAndColumn (new_LineTable text) (int matchIndex)
               = Some \<lparr> line = int k + 1, column = Some (int (matchIndex - start) + 1) \<rparr>"
    "tested_line (split_lines text) \<lparr> line = int k + 1, column = Some (int (matchIndex - start) + 1) \<rparr>
               = line_at text matchIndex"
    using position_of_offset[OF _ m] a by blast
  show "loop_body env opts path uri text (split_lines text) (new_LineTable text) matchIndex replacedWord st
          = (None, st)"
    using a p by (intro loop_body_comment[OF p(1)]) simp
  fix lc
  show "(matchIndex, replacedWord, lc) \<notin> set (measured_tokens text)"
  proof
    assume "(matchIndex, replacedWord, lc) \<in> set (measured_tokens text)"
    then have "get1BasedLineAndColumn (new_LineTable text) (int matchIndex) = Some lc"
      "\<not> commentRegex_test (tested_line (split_lines text) lc)"
      using measured_member unfolding measured_tokens_def by blast+
    then show False using p a by simp
  qed
next
  show "commentRegex_test s \<longleftrightarrow>
        (\<exists>ws rest. s = ws @ rest \<and> (\<forall>c \<in> set ws. isWhiteSpace c)
           \<and> (take 1 rest = ascii ''*'' \<or> take 2 rest = ascii ''/*'' \<or> take 2 rest = ascii ''//''))"
    by (rule commentRegex_test_iff)
next
  assume r: "readFileSync env' path' = ascii ''// foo bar''"
  note run = comment_text_run[OF r, of opts' st0]
  show "fst (process_file env' opts' path' st0) = None" by (simp add: run)
  show "new_measurements st0 (snd (process_file env' opts' path' st0)) = []"
    by (simp add: run new_measurements_def send_def)
  show "new_messages st0 (snd (process_file env' opts' path' st0)) =
          [DidOpenTextDocumentNotification
             (TextDocumentItem (pathToFileURL env' (realpathSync env' path')) (ascii ''codeql'') 1
                (ascii ''// foo bar''))]"
    by (simp add: run new_messages_def send_def)
  show "versionNumber (snd (process_file env' opts' path' st0)) = 1"
    by (simp add: run send_def)
qed

theorem comment_tokens_skipped_witness:
  "length (ascii ''// foo bar'') < 2 ^ 31
   \<and> wordRegex_exec (ascii ''// foo bar'') 0 = Some (3, ascii ''foo'')
   \<and> line_at (ascii ''// foo bar'') 3 = ascii ''// foo bar''
   \<and> commentRegex_test (line_at (ascii ''// foo bar'') 3)
   \<and> loop_body (example_env (ascii ''// foo bar'') (Result Null)) jump_options (ascii ''a.ql'') (ascii ''u'')
        (ascii ''// foo bar'') (split_lines (ascii ''// foo bar'')) (new_LineTable (ascii ''// foo bar''))
        3 (ascii ''foo'') fresh = (None, fresh)
   \<and> (3, ascii ''foo'', \<lparr> line = 1, column = Some 4 \<rparr>) \<notin> set (measured_tokens (ascii ''// foo bar''))
   \<and> readFileSync (example_env (ascii ''// foo bar'') (Result Null)) (ascii ''a.ql'') = ascii ''// foo bar''
   \<and> fst (process_file (example_env (ascii ''// foo bar'') (Result Null)) jump_options (ascii ''a.ql'') fresh) = None
   \<and> new_measurements fresh
        (snd (process_file (example_env (ascii ''// foo bar'') (Result Null)) jump_options (ascii ''a.ql'') fresh)) = []
   \<and> new_measurements fresh
        (snd (process_file (example_env (ascii ''// foo bar'') (Result Null)) completion_options (ascii ''a.ql'') fresh)) = []
   \<and> ascii ''  /* x'' = ascii ''  '' @ ascii ''/* x''
   \<and> isWhiteSpace 32
   \<and> take 2 (ascii ''/* x'') = ascii ''/*''
   \<and> commentRegex_test (ascii ''  /* x'')"
proof -
  have parts: "\<exists>ws rest. ascii ''  /* x'' = ws @ rest \<and> (\<forall>c \<in> set ws. isWhiteSpace c)
      \<and> (take 1 rest = ascii ''*'' \<or> take 2 rest = ascii ''/*'' \<or> take 2 rest = ascii ''//'')"
    by (intro exI[of _ "ascii ''  ''"] exI[of _ "ascii ''/* x''"]) (simp add: ascii_def isWhiteSpace_def)
  note accepted = comment_tokens_skipped[of _ _ _ _ _ _ _ _ _ "ascii ''  /* x''",
      THEN conjunct2, THEN conjunct1, THEN iffD2, OF parts]
  have pieces: "ascii ''  /* x'' = ascii ''  '' @ ascii ''/* x''" "isWhiteSpace 32"
    "take 2 (ascii ''/* x'') = ascii ''/*''"
    by (simp_all add: ascii_def isWhiteSpace_def)
  have h: "length (ascii ''// foo bar'') < 2 ^ 31
      \<and> wordRegex_exec (ascii ''// foo bar'') 0 = Some (3, ascii ''foo'')
      \<and> commentRegex_test (line_at (ascii ''// foo bar'') 3)"
    using comment_is_comment[of None]
    by (simp add: comment_lengths comment_matches comment_line_at tested_line_def array_get_def)
  have r: "readFileSync (example_env (ascii ''// foo bar'') (Result Null)) (ascii ''a.ql'') = ascii ''// foo bar''"
    by (simp add: example_env_def)
  note token = comment_tokens_skipped[of "ascii ''// foo bar''" 0 3 "ascii ''foo''"
      "example_env (ascii ''// foo bar'') (Result Null)" jump_options "ascii ''a.ql''" "ascii ''u''" fresh,
      THEN conjunct1, THEN mp, OF h]
  note jump = comment_tokens_skipped[of _ _ _ _ _ _ _ _ _ _
      "example_env (ascii ''// foo bar'') (Result Null)" "ascii ''a.ql''" jump_options fresh,
      THEN conjunct2, THEN conjunct2, THEN mp, OF r]
  note completion = comment_tokens_skipped[of _ _ _ _ _ _ _ _ _ _
      "example_env (ascii ''// foo bar'') (Result Null)" "ascii ''a.ql''" completion_options fresh,
      THEN conjunct2, THEN conjunct2, THEN mp, OF r]
  show ?thesis
    using h r token jump completion accepted pieces by (simp add: comment_line_at)
qed

text \<open>
  C5: the \<open>numberOfResults\<close> of a measurement is computed from the result of the measured
  request, and only from it. On the results that the two requests are declared to return
  (nothing, an array, or an object, whose \<open>items\<close> if present is an array) the count is: 0
  for an absent result (no \<open>result\<close> field, or \<open>null\<close>); the length of an array, 3 for
  three items; the length of the \<open>items\<close> array of an object that has the key \<open>items\<close>, 2
  for two items (whatever the value under \<open>items\<close>, the count is what reading its
  \<open>length\<close> gives); and 1 for an object without that key.
\<close>

theorem numberOfResults_classification:
  "numberOfResults_of Undefined = Inr (Number 0)
   \<and> numberOfResults_of Null = Inr (Number 0)
   \<and> numberOfResults_of (Array xs) = Inr (Number (int (length xs)))
   \<and> (map_of ps (ascii ''items'') = Some (Array ys) \<longrightarrow>
        numberOfResults_of (Object ps) = Inr (Number (int (length ys))))
   \<and> (map_of rs (ascii ''items'') = Some v \<longrightarrow> numberOfResults_of (Object rs) = get_length v)
   \<and> (map_of qs (ascii ''items'') = None \<longrightarrow> numberOfResults_of (Object qs) = Inr (Number 1))
   \<and> numberOfResults_of (Array [x, y, z]) = Inr (Number 3)
   \<and> numberOfResults_of (Object [(ascii ''items'', Array [x, y])]) = Inr (Number 2)
   \<and> (loop_body env opts path uri text lines lineTable matchIndex replacedWord st = (out, st')
        \<and> reported st' \<noteq> reported st \<longrightarrow>
        (\<exists>result m. server env (take (length (sent st) + 2) (sent st')) = Result result
           \<and> reported st' = reported st @ [m]
           \<and> numberOfResults_of result = Inr (numberOfResults m)))"
  using loop_body_reports[of env opts path uri "text" lines lineTable matchIndex replacedWord st out st']
  by (simp add: numberOfResults_of_def)

theorem numberOfResults_classification_witness:
  "map_of [(ascii ''isIncomplete'', Boolean False), (ascii ''items'', Array [Null, Null])] (ascii ''items'')
     = Some (Array [Null, Null])
   \<and> numberOfResults_of (Object [(ascii ''isIncomplete'', Boolean False), (ascii ''items'', Array [Null, Null])])
     = Inr (Number (int (length [Null, Null])))
   \<and> map_of [(ascii ''items'', String (ascii ''ab''))] (ascii ''items'') = Some (String (ascii ''ab''))
   \<and> numberOfResults_of (Object [(ascii ''items'', String (ascii ''ab''))]) = Inr (Number 2)
   \<and> map_of [(ascii ''uri'', String (ascii ''u''))] (ascii ''items'') = None
   \<and> numberOfResults_of (Object [(ascii ''uri'', String (ascii ''u''))]) = Inr (Number 1)
   \<and> loop_body (example_env (ascii ''foo bar'') (Result (Array [Null, Null, Null]))) completion_options
       (ascii ''a.ql'') (ascii ''u'') (ascii ''foo bar'') [ascii ''foo bar''] \<lparr> lineStarts = [0, 7] \<rparr>
       0 (ascii ''foo'') fresh
      = (None, \<lparr> versionNumber = 2,
      sent = [DidChangeTextDocumentNotification (VersionedTextDocumentIdentifier (ascii ''u'') 1) (ascii '' bar''),
              CompletionRequest (Position 1 (Some 1)) (VersionedTextDocumentIdentifier (ascii ''u'') 1),
              DidChangeTextDocumentNotification (VersionedTextDocumentIdentifier (ascii ''u'') 2) (ascii ''foo bar'')],
      reported = [\<lparr> line = 1, column = Some 1, file = ascii ''a.ql'', time = 0,
                    numberOfResults = Number 3 \<rparr>] \<rparr>)
   \<and> numberOfResults_of (Array [Null, Null, Null]) = Inr (Number 3)"
  using numberOfResults_classification[of "[Null, Null, Null]"
      "[(ascii ''isIncomplete'', Boolean False), (ascii ''items'', Array [Null, Null])]" "[Null, Null]"
      "[(ascii ''items'', String (ascii ''ab''))]" "String (ascii ''ab'')"
      "[(ascii ''uri'', String (ascii ''u''))]" Null Null Null
      "example_env (ascii ''foo bar'') (Result (Array [Null, Null, Null]))" completion_options
      "ascii ''a.ql''" "ascii ''u''" "ascii ''foo bar''" "[ascii ''foo bar'']" "\<lparr> lineStarts = [0, 7] \<rparr>"
      0 "ascii ''foo''" fresh None]
    foo_first_body
  by (simp add: ascii_def)

text \<open>
  C6: on the table of any text (of fewer than \<open>2^31\<close> code units), \<open>getLineFromOffset\<close>
  returns a line index \<open>k\<close>. It is 0 when the offset is below every recorded start, and
  the last index when the offset is at least the largest start; for an offset that is not
  below every start, \<open>k\<close> is the greatest index whose start is at most the offset. So an
  offset equal to the start of line \<open>j\<close> gives \<open>j\<close> itself.
\<close>

theorem getLineFromOffset_greatest_start:
  assumes "length text < 2 ^ 31"
  shows "\<exists>k. getLineFromOffset (new_LineTable text) offset = Some k
           \<and> 0 \<le> k \<and> k < int (length (lineStarts (new_LineTable text)))
           \<and> ((\<forall>j < length (lineStarts (new_LineTable text)). offset < lineStarts (new_LineTable text) ! j)
                \<longrightarrow> k = 0)
           \<and> ((\<forall>j < length (lineStarts (new_LineTable text)). lineStarts (new_LineTable text) ! j \<le> offset)
                \<longrightarrow> k = int (length (lineStarts (new_LineTable text))) - 1)
           \<and> ((\<exists>j < length (lineStarts (new_LineTable text)). lineStarts (new_LineTable text) ! j \<le> offset)
                \<longrightarrow> lineStarts (new_LineTable text) ! nat k \<le> offset
                  \<and> (\<forall>j < length (lineStarts (new_LineTable text)).
                        lineStarts (new_LineTable text) ! j \<le> offset \<longrightarrow> int j \<le> k))
           \<and> (\<forall>j < length (lineStarts (new_LineTable text)).
                 offset = lineStarts (new_LineTable text) ! j \<longrightarrow> k = int j)"
proof -
  define starts where "starts = lineStarts (new_LineTable text)"
  have ne: "starts \<noteq> []" and len: "length starts \<le> 2 ^ 31"
    using lineStarts_length[of "text"] assms by (simp_all add: starts_def)
  have srt: "sorted starts" and strict: "sorted_wrt (<) starts"
    using lineStarts_sorted(1,2)[of "text"] by (simp_all add: starts_def)
  obtain k where k: "getLowerBound starts offset = Some k" "0 \<le> k" "k < int (length starts)"
      "offset < starts ! 0 \<longrightarrow> k = 0"
      "starts ! 0 \<le> offset \<longrightarrow> starts ! nat k \<le> offset
           \<and> (\<forall>j < length starts. starts ! j \<le> offset \<longrightarrow> int j \<le> k)"
      "last starts \<le> offset \<longrightarrow> k = int (length starts) - 1"
    using getLowerBound_sorted[OF srt ne len, of offset] by blast
  have first_least: "\<And>j. j < length starts \<Longrightarrow> starts ! 0 \<le> starts ! j"
    using srt by (simp add: sorted_nth_mono)
  have below: "(\<forall>j < length starts. offset < starts ! j) \<longrightarrow> k = 0"
    using k(4) ne by auto
  have above: "(\<forall>j < length starts. starts ! j \<le> offset) \<longrightarrow> k = int (length starts) - 1"
  proof
    assume "\<forall>j < length starts. starts ! j \<le> offset"
    then have "starts ! (length starts - 1) \<le> offset" using ne by simp
    then have "last starts \<le> offset" using ne by (simp add: last_conv_nth)
    then show "k = int (length starts) - 1" using k(6) by simp
  qed
  have inside: "(\<exists>j < length starts. starts ! j \<le> offset) \<longrightarrow> starts ! nat k \<le> offset
           \<and> (\<forall>j < length starts. starts ! j \<le> offset \<longrightarrow> int j \<le> k)"
  proof
    assume "\<exists>j < length starts. starts ! j \<le> offset"
    then obtain j where "j < length starts" "starts ! j \<le> offset" by blast
    then have "starts ! 0 \<le> offset" using first_least[of j] by simp
    then show "starts ! nat k \<le> offset \<and> (\<forall>j < length starts. starts ! j \<le> offset \<longrightarrow> int j \<le> k)"
      using k(5) by simp
  qed
  have exact: "\<forall>j < length starts. offset = starts ! j \<longrightarrow> k = int j"
  proof (intro allI impI)
    fix j assume j: "j < length starts" "offset = starts ! j"
    then have a: "starts ! nat k \<le> starts ! j" "int j \<le> k" using inside by auto
    have "\<not> j < nat k"
    proof
      assume "j < nat k"
      then have "starts ! j < starts ! nat k"
        using strict k(2,3) by (auto simp: sorted_wrt_iff_nth_less)
      then show False using a(1) by simp
    qed
    then show "k = int j" using a(2) k(2) by linarith
  qed
  show ?thesis
    unfolding getLineFromOffset_def starts_def[symmetric]
    using k(1,2,3) below above inside exact by blast
qed

theorem getLineFromOffset_greatest_start_witness:
  "length (ascii ''a\<newline>b'') < 2 ^ 31
   \<and> lineStarts (new_LineTable (ascii ''a\<newline>b'')) = [0, 2, 3]
   \<and> getLineFromOffset (new_LineTable (ascii ''a\<newline>b'')) (- 1) = Some 0
   \<and> getLineFromOffset (new_LineTable (ascii ''a\<newline>b'')) 1 = Some 0
   \<and> getLineFromOffset (new_LineTable (ascii ''a\<newline>b'')) 2 = Some 1
   \<and> getLineFromOffset (new_LineTable (ascii ''a\<newline>b'')) 7 = Some 2"
proof -
  define T where "T = new_LineTable (ascii ''a\<newline>b'')"
  have l: "length (ascii ''a\<newline>b'') < 2 ^ 31" by (simp add: ascii_def)
  have s: "lineStarts T = [0, 2, 3]" by (simp add: T_def lt_anb)
  have nth: "\<And>P. (\<forall>j < length (lineStarts T). P j) \<longleftrightarrow> P 0 \<and> P (Suc 0) \<and> P (Suc (Suc 0))"
    by (auto simp: s less_Suc_eq)
  note inst = getLineFromOffset_greatest_start[OF l, folded T_def]
  have below: "getLineFromOffset T (- 1) = Some 0"
  proof -
    obtain k where "getLineFromOffset T (- 1) = Some k"
      "(\<forall>j < length (lineStarts T). - 1 < lineStarts T ! j) \<longrightarrow> k = 0"
      using inst[of "- 1"] by blast
    then show ?thesis by (simp add: nth) (simp add: s)
  qed
  have inside: "getLineFromOffset T 1 = Some 0"
  proof -
    obtain k where k: "getLineFromOffset T 1 = Some k" "0 \<le> k"
      "(\<exists>j < length (lineStarts T). lineStarts T ! j \<le> 1) \<longrightarrow> lineStarts T ! nat k \<le> 1
         \<and> (\<forall>j < length (lineStarts T). lineStarts T ! j \<le> 1 \<longrightarrow> int j \<le> k)"
      "k < int (length (lineStarts T))"
      using inst[of 1] by blast
    have "0 < length (lineStarts T) \<and> lineStarts T ! 0 \<le> 1" by (simp add: s)
    then have "lineStarts T ! nat k \<le> 1" using k(3) by blast
    moreover have "nat k = 0 \<or> nat k = 1 \<or> nat k = 2" using k(2,4) by (auto simp: s)
    ultimately have "nat k = 0" by (auto simp: s)
    then show ?thesis using k(1,2) by simp
  qed
  have at: "getLineFromOffset T 2 = Some 1"
  proof -
    obtain k where k: "getLineFromOffset T 2 = Some k"
      "\<forall>j < length (lineStarts T). 2 = lineStarts T ! j \<longrightarrow> k = int j"
      using inst[of 2] by blast
    have "1 < length (lineStarts T) \<and> 2 = lineStarts T ! 1" by (simp add: s)
    then have "k = int 1" using k(2) by blast
    then show ?thesis using k(1) by simp
  qed
  have above: "getLineFromOffset T 7 = Some 2"
  proof -
    obtain k where "getLineFromOffset T 7 = Some k"
      "(\<forall>j < length (lineStarts T). lineStarts T ! j \<le> 7) \<longrightarrow> k = int (length (lineStarts T)) - 1"
      using inst[of 7] by blast
    then show ?thesis by (simp add: nth) (simp add: s)
  qed
  show ?thesis using l s below inside at above by (simp add: T_def)
qed

text \<open>
  C7: the line starts that the constructor computes are strictly increasing and begin
  with 0, for every text; for the empty text they are the one-element sequence \<open>[0]\<close>.
\<close>

theorem lineStarts_strictly_increasing:
  "sorted_wrt (<) (lineStarts (new_LineTable text))
   \<and> lineStarts (new_LineTable text) \<noteq> []
   \<and> lineStarts (new_LineTable text) ! 0 = 0
   \<and> lineStarts (new_LineTable []) = [0]"
  using lineStarts_sorted(1,3)[of "text"] lineStarts_length[of "text"] new_LineTable_empty by simp

text \<open>
  C8: where a carriage return is immediately followed by a line feed, the scan of the
  constructor goes on two characters later with exactly one line start pushed, the offset
  after the line feed; the offset between the two characters is not a line start of the
  table. The text of \<open>a\<close>, carriage return, line feed, \<open>b\<close> has the line starts 0 and 3
  (followed by the end of the text, 4) and splits into the two lines \<open>a\<close> and \<open>b\<close>;
  offset 3 is line 2, column 1.
\<close>

theorem crlf_single_terminator:
  "(i + 1 < length text \<and> text ! i = carriageReturn \<and> text ! (i + 1) = lineFeed \<longrightarrow>
       constructor_loop text i starts = constructor_loop text (i + 2) (starts @ [int (i + 2)])
     \<and> int (i + 1) \<notin> set (lineStarts (new_LineTable text))
     \<and> int (i + 2) \<in> set (lineStarts (new_LineTable text)))
   \<and> lineStarts (new_LineTable (ascii ''a'' @ [carriageReturn, lineFeed] @ ascii ''b'')) = [0, 3, 4]
   \<and> terminator_ends (ascii ''a'' @ [carriageReturn, lineFeed] @ ascii ''b'') = [3]
   \<and> split_lines (ascii ''a'' @ [carriageReturn, lineFeed] @ ascii ''b'') = [ascii ''a'', ascii ''b'']
   \<and> get1BasedLineAndColumn (new_LineTable (ascii ''a'' @ [carriageReturn, lineFeed] @ ascii ''b'')) 3
       = Some \<lparr> line = 2, column = Some 1 \<rparr>"
proof (intro conjI impI)
  assume a: "i + 1 < length text \<and> text ! i = carriageReturn \<and> text ! (i + 1) = lineFeed"
  then have "text ! i \<noteq> lineFeed" by (simp add: lineFeed_def carriageReturn_def)
  then show "constructor_loop text i starts = constructor_loop text (i + 2) (starts @ [int (i + 2)])"
    using a by (subst constructor_loop.simps) (simp add: Let_def)
  have "\<not> terminator_ends_at text (i + 1)"
    using a by (simp add: terminator_ends_at_def lineFeed_def carriageReturn_def)
  then have "int (i + 1) \<notin> int ` {p. terminator_ends_at text p}"
    unfolding inj_image_mem_iff[OF inj_of_nat] by simp
  then show "int (i + 1) \<notin> set (lineStarts (new_LineTable text))"
    using a unfolding lineStarts_set by simp
  have "terminator_ends_at text (i + 2)"
    using a by (simp add: terminator_ends_at_def)
  then show "int (i + 2) \<in> set (lineStarts (new_LineTable text))"
    unfolding lineStarts_set by blast
next
  show "lineStarts (new_LineTable (ascii ''a'' @ [carriageReturn, lineFeed] @ ascii ''b'')) = [0, 3, 4]"
    by (rule crlf_table)
  show "terminator_ends (ascii ''a'' @ [carriageReturn, lineFeed] @ ascii ''b'') = [3]"
    by (simp add: ascii_def lineFeed_def carriageReturn_def)
  show "split_lines (ascii ''a'' @ [carriageReturn, lineFeed] @ ascii ''b'') = [ascii ''a'', ascii ''b'']"
    by (simp add: ascii_def lineFeed_def carriageReturn_def)
  have "new_LineTable (ascii ''a'' @ [carriageReturn, lineFeed] @ ascii ''b'') = \<lparr> lineStarts = [0, 3, 4] \<rparr>"
    using crlf_table by (cases "new_LineTable (ascii ''a'' @ [carriageReturn, lineFeed] @ ascii ''b'')") simp
  then show "get1BasedLineAndColumn (new_LineTable (ascii ''a'' @ [carriageReturn, lineFeed] @ ascii ''b'')) 3
       = Some \<lparr> line = 2, column = Some 1 \<rparr>"
    by (simp add: crlf_position)
qed

theorem crlf_single_terminator_witness:
  "1 + 1 < length (ascii ''a'' @ [carriageReturn, lineFeed] @ ascii ''b'')
   \<and> (ascii ''a'' @ [carriageReturn, lineFeed] @ ascii ''b'') ! 1 = carriageReturn
   \<and> (ascii ''a'' @ [carriageReturn, lineFeed] @ ascii ''b'') ! (1 + 1) = lineFeed
   \<and> constructor_loop (ascii ''a'' @ [carriageReturn, lineFeed] @ ascii ''b'') 1 [0]
       = constructor_loop (ascii ''a'' @ [carriageReturn, lineFeed] @ ascii ''b'') (1 + 2) ([0] @ [int (1 + 2)])
   \<and> int (1 + 1) \<notin> set (lineStarts (new_LineTable (ascii ''a'' @ [carriageReturn, lineFeed] @ ascii ''b'')))
   \<and> int (1 + 2) \<in> set (lineStarts (new_LineTable (ascii ''a'' @ [carriageReturn, lineFeed] @ ascii ''b'')))"
proof -
  have h: "1 + 1 < length (ascii ''a'' @ [carriageReturn, lineFeed] @ ascii ''b'')
   \<and> (ascii ''a'' @ [carriageReturn, lineFeed] @ ascii ''b'') ! 1 = carriageReturn
   \<and> (ascii ''a'' @ [carriageReturn, lineFeed] @ ascii ''b'') ! (1 + 1) = lineFeed"
    by (simp add: ascii_def)
  note c = crlf_single_terminator[of 1 "ascii ''a'' @ [carriageReturn, lineFeed] @ ascii ''b''" "[0]",
      THEN conjunct1, THEN mp, OF h]
  show ?thesis using h c by simp
qed

text \<open>
  C9: the request of the \<open>k\<close>-th measured token, whenever it is sent, is the definition
  request (jump-to-definition mode) or the completion request (completion mode) on the
  version of the probe edit, at the position whose two fields are the \<open>line\<close> and
  \<open>column\<close> that \<open>get1BasedLineAndColumn\<close> returns for the token's start offset. These are
  the 0-based line of \<open>getLineFromOffset\<close> plus one and the 0-based column of
  \<open>getColumnFromLineAndOffset\<close> plus one, and the measurement reported for the token
  records the same two values.
\<close>

theorem request_position:
  assumes "process_file env opts path st = (out, st')"
  shows "\<forall>k. 3 * k + 2 < length (new_messages st st') \<longrightarrow>
           k < length (measured_tokens (readFileSync env path))
         \<and> (case measured_tokens (readFileSync env path) ! k of (matchIndex, replacedWord, lc) \<Rightarrow>
              get1BasedLineAndColumn (new_LineTable (readFileSync env path)) (int matchIndex) = Some lc
            \<and> new_messages st st' ! (3 * k + 2) =
                (if jumpToDef opts
                 then DefinitionRequest (Position (line lc) (column lc))
                        (VersionedTextDocumentIdentifier (pathToFileURL env (realpathSync env path))
                           (2 * int k + 2))
                 else CompletionRequest (Position (line lc) (column lc))
                        (VersionedTextDocumentIdentifier (pathToFileURL env (realpathSync env path))
                           (2 * int k + 2)))
            \<and> (\<exists>l0. getLineFromOffset (new_LineTable (readFileSync env path)) (int matchIndex) = Some l0
                    \<and> line lc = l0 + 1
                    \<and> column lc = map_option (\<lambda>c. c + 1)
                         (getColumnFromLineAndOffset (new_LineTable (readFileSync env path)) l0 (int matchIndex))
                    \<and> (length (readFileSync env path) < 2 ^ 31 \<longrightarrow>
                          (\<exists>c0. getColumnFromLineAndOffset (new_LineTable (readFileSync env path)) l0
                                   (int matchIndex) = Some c0
                              \<and> column lc = Some (c0 + 1))))
            \<and> (k < length (new_measurements st st') \<longrightarrow>
                  line (new_measurements st st' ! k) = line lc
                \<and> column (new_measurements st st' ! k) = column lc))"
proof (intro allI impI)
  fix k assume k: "3 * k + 2 < length (new_messages st st')"
  note m = token_messages(2)[OF assms k]
  have kM: "k < length (measured_tokens (readFileSync env path))" using m by simp
  obtain matchIndex replacedWord lc where
    tok: "measured_tokens (readFileSync env path) ! k = (matchIndex, replacedWord, lc)"
    by (cases "measured_tokens (readFileSync env path) ! k")
  note g = measured_tokens_member(4)[OF kM tok]
  obtain l0 where l0: "getLineFromOffset (new_LineTable (readFileSync env path)) (int matchIndex) = Some l0"
    "line lc = l0 + 1"
    "column lc = map_option (\<lambda>c. c + 1)
        (getColumnFromLineAndOffset (new_LineTable (readFileSync env path)) l0 (int matchIndex))"
    using get1BasedLineAndColumn_Some[OF g] by blast
  have bounded: "length (readFileSync env path) < 2 ^ 31 \<longrightarrow>
      (\<exists>c0. getColumnFromLineAndOffset (new_LineTable (readFileSync env path)) l0 (int matchIndex) = Some c0
          \<and> column lc = Some (c0 + 1))"
  proof
    assume "length (readFileSync env path) < 2 ^ 31"
    then obtain start where
      "getColumnFromLineAndOffset (new_LineTable (readFileSync env path)) l0 (int matchIndex)
         = Some (int matchIndex - start)"
      using column_in_table[OF _ l0(1)] by blast
    then show "\<exists>c0. getColumnFromLineAndOffset (new_LineTable (readFileSync env path)) l0 (int matchIndex) = Some c0
          \<and> column lc = Some (c0 + 1)"
      using l0(3) by simp
  qed
  have ms: "k < length (new_measurements st st') \<longrightarrow>
                  line (new_measurements st st' ! k) = line lc
                \<and> column (new_measurements st st' ! k) = column lc"
    using measurement_position(2,3)[OF assms] tok by simp
  show "k < length (measured_tokens (readFileSync env path))
         \<and> (case measured_tokens (readFileSync env path) ! k of (matchIndex, replacedWord, lc) \<Rightarrow>
              get1BasedLineAndColumn (new_LineTable (readFileSync env path)) (int matchIndex) = Some lc
            \<and> new_messages st st' ! (3 * k + 2) =
                (if jumpToDef opts
                 then DefinitionRequest (Position (line lc) (column lc))
                        (VersionedTextDocumentIdentifier (pathToFileURL env (realpathSync env path))
                           (2 * int k + 2))
                 else CompletionRequest (Position (line lc) (column lc))
                        (VersionedTextDocumentIdentifier (pathToFileURL env (realpathSync env path))
                           (2 * int k + 2)))
            \<and> (\<exists>l0. getLineFromOffset (new_LineTable (readFileSync env path)) (int matchIndex) = Some l0
                    \<and> line lc = l0 + 1
                    \<and> column lc = map_option (\<lambda>c. c + 1)
                         (getColumnFromLineAndOffset (new_LineTable (readFileSync env path)) l0 (int matchIndex))
                    \<and> (length (readFileSync env path) < 2 ^ 31 \<longrightarrow>
                          (\<exists>c0. getColumnFromLineAndOffset (new_LineTable (readFileSync env path)) l0
                                   (int matchIndex) = Some c0
                              \<and> column lc = Some (c0 + 1))))
            \<and> (k < length (new_measurements st st') \<longrightarrow>
                  line (new_measurements st st' ! k) = line lc
                \<and> column (new_measurements st st' ! k) = column lc))"
    unfolding tok using kM g m[unfolded tok] l0 bounded ms
    by (simp add: measured_request_def)
qed

theorem request_position_witness:
  "process_file (example_env (ascii ''foo bar'') (Result Null)) completion_options (ascii ''a.ql'') fresh
     = (fst foo_bar_run, snd foo_bar_run)
   \<and> 3 * 1 + 2 < length (new_messages fresh (snd foo_bar_run))
   \<and> 1 < length (measured_tokens (ascii ''foo bar''))
   \<and> measured_tokens (ascii ''foo bar'') ! 1 = (4, ascii ''bar'', \<lparr> line = 1, column = Some 5 \<rparr>)
   \<and> get1BasedLineAndColumn (new_LineTable (ascii ''foo bar'')) (int 4)
        = Some \<lparr> line = 1, column = Some 5 \<rparr>
   \<and> new_messages fresh (snd foo_bar_run) ! (3 * 1 + 2) =
        CompletionRequest (Position 1 (Some 5))
          (VersionedTextDocumentIdentifier (ascii ''file://'' @ ascii ''a.ql'') (2 * int 1 + 2))
   \<and> getLineFromOffset (new_LineTable (ascii ''foo bar'')) (int 4) = Some 0
   \<and> length (ascii ''foo bar'') < 2 ^ 31
   \<and> getColumnFromLineAndOffset (new_LineTable (ascii ''foo bar'')) 0 (int 4) = Some 4
   \<and> 1 < length (new_measurements fresh (snd foo_bar_run))
   \<and> line (new_measurements fresh (snd foo_bar_run) ! 1) = 1
   \<and> column (new_measurements fresh (snd foo_bar_run) ! 1) = Some 5"
proof -
  have len: "3 * 1 + 2 < length (new_messages fresh (snd foo_bar_run))"
    and ms: "1 < length (new_measurements fresh (snd foo_bar_run))"
    by (simp_all add: foo_bar_run_value new_messages_def new_measurements_def fresh_def)
  have e: "readFileSync (example_env (ascii ''foo bar'') (Result Null)) (ascii ''a.ql'') = ascii ''foo bar''"
    "pathToFileURL (example_env (ascii ''foo bar'') (Result Null))
       (realpathSync (example_env (ascii ''foo bar'') (Result Null)) (ascii ''a.ql'')) = ascii ''file://'' @ ascii ''a.ql''"
    "jumpToDef completion_options = False"
    by (simp_all add: example_env_def completion_options_def)
  have tok: "measured_tokens (ascii ''foo bar'') ! 1 = (4, ascii ''bar'', \<lparr> line = 1, column = Some 5 \<rparr>)"
    by (simp add: foo_bar_measured)
  note token = request_position[OF foo_bar_run_process, THEN spec, of 1, THEN mp, OF len, unfolded e tok]
  have line0: "getLineFromOffset (new_LineTable (ascii ''foo bar'')) (int 4) = Some 0"
    using token by auto
  have col0: "getColumnFromLineAndOffset (new_LineTable (ascii ''foo bar'')) 0 (int 4) = Some 4"
    by (simp add: foo_bar_table getColumnFromLineAndOffset_def array_get_def)
  have l: "length (ascii ''foo bar'') < 2 ^ 31" by (simp add: ascii_def)
  show ?thesis
    using token len ms tok foo_bar_run_process line0 col0 l by simp
qed

text \<open>
  C10: \<open>getLowerBound\<close> returns for every array that JavaScript can hold (fewer than
  \<open>2^32\<close> elements), sorted or not, of numbers of any ordered type, and every queried
  value. In the loop the midpoint is
  rounded up, so one iteration continues with bounds \<open>low'\<close>, \<open>high'\<close> inside the old
  ones whose difference is strictly smaller. Hence \<open>getLineFromOffset\<close> returns on the
  table constructed from any text whose table JavaScript can hold (the text has fewer than
  \<open>2^32 - 1\<close> code units).
\<close>

theorem getLowerBound_total:
  "(length array < 2 ^ 32 \<longrightarrow> (\<exists>r. getLowerBound array v = Some r))
   \<and> (low < high \<and> high - low < 2 ^ 31 \<longrightarrow>
        (\<exists>low' high'. getLowerBound_loop array v low high = getLowerBound_loop array v low' high'
           \<and> low \<le> low' \<and> low' \<le> high' \<and> high' \<le> high \<and> high' - low' < high - low))
   \<and> (length text + 1 < 2 ^ 32 \<longrightarrow> (\<exists>r. getLineFromOffset (new_LineTable text) offset = Some r))"
proof (intro conjI impI)
  assume "length array < 2 ^ 32"
  then show "\<exists>r. getLowerBound array v = Some r" by (rule getLowerBound_returns)
next
  assume "low < high \<and> high - low < 2 ^ 31"
  then show "\<exists>low' high'. getLowerBound_loop array v low high = getLowerBound_loop array v low' high'
           \<and> low \<le> low' \<and> low' \<le> high' \<and> high' \<le> high \<and> high' - low' < high - low"
    using getLowerBound_loop_iteration by blast
next
  assume "length text + 1 < 2 ^ 32"
  then have "length (lineStarts (new_LineTable text)) < 2 ^ 32"
    using lineStarts_length[of "text"] by simp
  then show "\<exists>r. getLineFromOffset (new_LineTable text) offset = Some r"
    unfolding getLineFromOffset_def by (rule getLowerBound_returns)
qed

theorem getLowerBound_total_witness:
  "length [0, 3, 4 :: int] < 2 ^ 32 \<and> (\<exists>r. getLowerBound [0, 3, 4 :: int] 3 = Some r)
   \<and> (0 :: int) < 2 \<and> (2 :: int) - 0 < 2 ^ 31
   \<and> (\<exists>low' high'. getLowerBound_loop [0, 3, 4 :: int] 3 0 2 = getLowerBound_loop [0, 3, 4 :: int] 3 low' high'
           \<and> 0 \<le> low' \<and> low' \<le> high' \<and> high' \<le> 2 \<and> high' - low' < 2 - 0)
   \<and> length (ascii ''a\<newline>b'') + 1 < 2 ^ 32
   \<and> (\<exists>r. getLineFromOffset (new_LineTable (ascii ''a\<newline>b'')) 2 = Some r)"
  using getLowerBound_total[of "[0, 3, 4 :: int]" 3 0 2 "ascii ''a\<newline>b''" 2]
  by (simp add: ascii_def)

end
